theory Spec2Isabelle
  imports Main "HOL-Library.Word"
begin

section \<open>The ZunkDB chunk back-end (chunk-db-zdb.c)\<close>

text \<open>
  A shallow embedding of \<^verbatim>\<open>chunk-db-zdb.c\<close>. Every C function of the file is a HOL
  function of the same name on an explicit machine state (\<^verbatim>\<open>__cache_node\<close> and
  \<^verbatim>\<open>__store_node\<close> are \<open>uu_cache_node\<close> and \<open>uu_store_node\<close>). What the C code gets
  from outside the file is kept outside the functions:
  \<^item> pure library routines whose code is not in the file (\<^verbatim>\<open>verify_chunk\<close>,
    \<^verbatim>\<open>base64_decode\<close>, \<^verbatim>\<open>digest_string\<close>, \<^verbatim>\<open>inet_aton\<close>, ...) are the fields of a
    record \<open>ext\<close>, a parameter of every function that calls them;
  \<^item> the outcome of every system call that can fail (\<^verbatim>\<open>malloc\<close>, \<^verbatim>\<open>socket\<close>,
    \<^verbatim>\<open>connect\<close>, ...) is read from a record \<open>env\<close>, indexed by the number of the call;
  \<^item> what \<^verbatim>\<open>event_base_loop\<close> delivers (connect completions, bytes read, errors, the
    deadline) is a script: a list of steps, one per call of the loop.
\<close>

subsection \<open>Data\<close>

type_synonym byte = "8 word"

text \<open>\<^verbatim>\<open>struct sockaddr_in\<close>: the family is always \<^verbatim>\<open>AF_INET\<close>.\<close>

record sockaddr_in =
  sin_addr :: "32 word"
  sin_port :: "16 word"

record timeval =
  tv_sec :: int
  tv_usec :: int

text \<open>\<^verbatim>\<open>timercmp(a, b, >)\<close>.\<close>

definition timercmp_gt :: "timeval \<Rightarrow> timeval \<Rightarrow> bool" where
  "timercmp_gt a b =
     (if tv_sec a = tv_sec b then tv_usec a > tv_usec b else tv_sec a > tv_sec b)"

record zdb_info =
  start_node :: sockaddr_in
  timeout :: timeval
  max_concurrency :: "32 word"

text \<open>
  \<^verbatim>\<open>struct node\<close>. A \<^verbatim>\<open>struct node *\<close> is the number \<open>nid\<close> (the address of the
  object); the intrusive lists of the C code are lists of the node objects themselves,
  and \<^verbatim>\<open>list_del\<close> finds a node by its address. \<open>req_attached\<close> is
  \<^verbatim>\<open>node->request != NULL\<close>, \<open>connect_pending\<close> is
  \<^verbatim>\<open>event_pending(&node->connect_event, EV_WRITE, NULL)\<close>, \<open>bev_enabled\<close> says whether
  the buffered channel has \<^verbatim>\<open>EV_READ|EV_WRITE\<close> enabled, \<open>inbuf\<close> and \<open>outbuf\<close> are
  the channel's two buffers.
\<close>

record node =
  nid :: nat
  addr :: sockaddr_in
  sk :: int
  req_attached :: bool
  connect_pending :: bool
  bev_enabled :: bool
  inbuf :: string
  outbuf :: string
  stamp :: timeval

text \<open>
  \<^verbatim>\<open>struct request\<close>. \<open>chunk\<close> is \<^verbatim>\<open>request.chunk != NULL\<close>: the pointer is either the
  caller's buffer or null. The four counters are C \<^verbatim>\<open>unsigned\<close>.
\<close>

record request =
  evbuf :: string
  chunk :: bool
  digest :: "byte list"
  node_list :: "node list"
  addr_list :: "sockaddr_in list"
  addr_count :: "32 word"
  addr_index :: "32 word"
  addr_concurrency :: "32 word"
  done_cnt :: "32 word"

text \<open>
  The machine state: the request of the running call, the caller's chunk buffer,
  whether the deadline timer is still pending, the process-wide lists \<^verbatim>\<open>node_cache\<close>
  and \<^verbatim>\<open>dead_nodes\<close> with \<^verbatim>\<open>cache_count\<close>, the wall clock that \<^verbatim>\<open>gettimeofday\<close> reads,
  the set of open socket descriptors, and how many calls of \<^verbatim>\<open>malloc\<close>/\<^verbatim>\<open>realloc\<close>,
  \<^verbatim>\<open>socket\<close> and \<^verbatim>\<open>bufferevent_new\<close> have been made.
\<close>

record state =
  rq :: request
  out_buf :: "byte list"
  to_pending :: bool
  node_cache :: "node list"
  dead_nodes :: "node list"
  cache_count :: "32 word"
  now :: timeval
  open_fds :: "int set"
  malloc_calls :: nat
  socket_calls :: nat
  bev_calls :: nat

text \<open>Results of \<^verbatim>\<open>connect()\<close> other than \<^verbatim>\<open>EINTR\<close>.\<close>

datatype connect_res = C_OK | C_EISCONN | C_EALREADY | C_EINPROGRESS | C_OTHER

text \<open>The library routines the file calls, and the outcomes of its system calls.\<close>

record ext =
  verify_chunk :: "byte list \<Rightarrow> byte list \<Rightarrow> bool"
  base64_decode :: "string \<Rightarrow> byte list \<Rightarrow> byte list"
  base64_encode :: "byte list \<Rightarrow> string"
  digest_string :: "byte list \<Rightarrow> string"
  inet_aton :: "string \<Rightarrow> 32 word option"

record env =
  base_ok :: bool
  evbuffer_ok :: bool
  evbuffer_add_ok :: bool
  malloc_ok :: "nat \<Rightarrow> bool"
  socket_res :: "nat \<Rightarrow> int"
  bev_ok :: "nat \<Rightarrow> bool"
  connect_first :: "nat \<Rightarrow> nat \<times> connect_res"

text \<open>
  The values the functions return: \<^verbatim>\<open>0\<close>, \<^verbatim>\<open>CHUNK_SIZE\<close> (a positive constant of
  \<^verbatim>\<open>zunkfs.h\<close>) and the negated error numbers.
\<close>

datatype ret = ZERO | CHUNK_SIZE | NEG_EIO | NEG_ETIMEDOUT | NEG_ENOMEM | NEG_EINVAL

datatype found = NotFound | DeadNode | Found node

subsection \<open>C strings\<close>

text \<open>
  A buffer read as a C string ends at its first NUL byte. \<open>atoi\<close> is
  \<^verbatim>\<open>(int) strtol(s, NULL, 10)\<close> as the GNU C library computes it where \<^verbatim>\<open>long\<close> has 64
  bits and \<^verbatim>\<open>int\<close> 32: white space, an optional sign, then the longest run of decimal
  digits (none gives 0); a value outside \<^verbatim>\<open>long\<close> becomes \<^verbatim>\<open>LONG_MAX\<close> or \<^verbatim>\<open>LONG_MIN\<close>,
  and the conversion to \<^verbatim>\<open>int\<close> keeps the low 32 bits (the C standard leaves the result
  open when the value does not fit). \<open>htons\<close> and \<open>htonl\<close> reverse the bytes of a port
  and of an address (a little-endian host).
\<close>

definition cstr :: "string \<Rightarrow> string" where
  "cstr s = takeWhile (\<lambda>c. c \<noteq> CHR 0x00) s"

definition isspace :: "char \<Rightarrow> bool" where
  "isspace c = (c \<in> {CHR '' '', CHR 0x09, CHR 0x0A, CHR 0x0B, CHR 0x0C, CHR 0x0D})"

definition isdigit :: "char \<Rightarrow> bool" where
  "isdigit c = (48 \<le> (of_char c :: nat) \<and> (of_char c :: nat) \<le> 57)"

fun digits_val :: "int \<Rightarrow> string \<Rightarrow> int" where
  "digits_val acc [] = acc"
| "digits_val acc (c # cs) =
     (if isdigit c then digits_val (acc * 10 + (of_char c - 48)) cs else acc)"

definition strtol10 :: "string \<Rightarrow> int" where
  "strtol10 s =
     (case dropWhile isspace s of
        [] \<Rightarrow> 0
      | c # cs \<Rightarrow>
          if c = CHR ''-'' then max (- (2 ^ 63)) (- digits_val 0 cs)
          else if c = CHR ''+'' then min (2 ^ 63 - 1) (digits_val 0 cs)
          else min (2 ^ 63 - 1) (digits_val 0 (c # cs)))"

definition atoi :: "string \<Rightarrow> int" where
  "atoi s = sint (word_of_int (strtol10 s) :: 32 word)"

definition htons :: "16 word \<Rightarrow> 16 word" where
  "htons x = or (push_bit 8 x) (drop_bit 8 x)"

definition htonl :: "32 word \<Rightarrow> 32 word" where
  "htonl x =
     push_bit 24 (take_bit 8 x) + push_bit 16 (take_bit 8 (drop_bit 8 x)) +
     push_bit 8 (take_bit 8 (drop_bit 16 x)) + drop_bit 24 x"

text \<open>\<^verbatim>\<open>strchr(s, ':')\<close> followed by \<^verbatim>\<open>*port++ = 0\<close>: the text before the first colon and
  the text after it, or nothing when there is no colon.\<close>

definition split_colon :: "string \<Rightarrow> (string \<times> string) option" where
  "split_colon s =
     (if CHR '':'' \<in> set s
      then Some (takeWhile (\<lambda>c. c \<noteq> CHR '':'') s, tl (dropWhile (\<lambda>c. c \<noteq> CHR '':'') s))
      else None)"

subsection \<open>Nodes and the node cache\<close>

definition same_addr :: "sockaddr_in \<Rightarrow> sockaddr_in \<Rightarrow> bool" where
  "same_addr a b = (sin_addr a = sin_addr b \<and> sin_port a = sin_port b)"

definition node_is_addr :: "node \<Rightarrow> sockaddr_in \<Rightarrow> bool" where
  "node_is_addr n sa = same_addr (addr n) sa"

text \<open>\<^verbatim>\<open>list_del(&node->node_entry)\<close>: the node leaves the list it is on.\<close>

definition list_del :: "nat \<Rightarrow> state \<Rightarrow> state" where
  "list_del p s =
     s\<lparr>rq := (rq s)\<lparr>node_list := filter (\<lambda>n. nid n \<noteq> p) (node_list (rq s))\<rparr>,
       node_cache := filter (\<lambda>n. nid n \<noteq> p) (node_cache s),
       dead_nodes := filter (\<lambda>n. nid n \<noteq> p) (dead_nodes s)\<rparr>"

text \<open>Writes a field of the node object at address \<open>p\<close>, on whichever list it is.\<close>

definition upd_node :: "nat \<Rightarrow> (node \<Rightarrow> node) \<Rightarrow> state \<Rightarrow> state" where
  "upd_node p f s =
     s\<lparr>rq := (rq s)\<lparr>node_list := map (\<lambda>n. if nid n = p then f n else n) (node_list (rq s))\<rparr>,
       node_cache := map (\<lambda>n. if nid n = p then f n else n) (node_cache s),
       dead_nodes := map (\<lambda>n. if nid n = p then f n else n) (dead_nodes s)\<rparr>"

definition free_node :: "node \<Rightarrow> state \<Rightarrow> state" where
  "free_node n s =
     (let s1 = (if req_attached n
                then s\<lparr>rq := (rq s)\<lparr>addr_concurrency := addr_concurrency (rq s) - 1\<rparr>\<rparr>
                else s);
          s2 = list_del (nid n) s1
      in s2\<lparr>open_fds := open_fds s2 - {sk n}\<rparr>)"

text \<open>The second loop of \<^verbatim>\<open>find_node\<close>, over the dead list as it was on entry.\<close>

fun sweep_dead :: "sockaddr_in \<Rightarrow> timeval \<Rightarrow> node list \<Rightarrow> state \<Rightarrow> found \<times> state" where
  "sweep_dead sa t [] s = (NotFound, s)"
| "sweep_dead sa t (n # ns) s =
     (if timercmp_gt t (stamp n) then sweep_dead sa t ns (free_node n s)
      else if node_is_addr n sa then (DeadNode, s)
      else sweep_dead sa t ns s)"

definition find_node :: "sockaddr_in \<Rightarrow> state \<Rightarrow> found \<times> state" where
  "find_node sa s =
     (case find (\<lambda>n. node_is_addr n sa) (node_cache s) of
        Some n \<Rightarrow> (Found n, list_del (nid n) (s\<lparr>cache_count := cache_count s - 1\<rparr>))
      | None \<Rightarrow> sweep_dead sa (now s) (dead_nodes s) s)"

definition CACHE_MAX :: "32 word" where
  "CACHE_MAX = 100"

text \<open>\<^verbatim>\<open>__cache_node\<close>.\<close>

definition uu_cache_node :: "node \<Rightarrow> state \<Rightarrow> state" where
  "uu_cache_node n s =
     (let n1 = n\<lparr>req_attached := False, bev_enabled := False\<rparr>;
          s1 = list_del (nid n) s
      in if connect_pending n
         then s1\<lparr>open_fds := open_fds s1 - {sk n},
                 dead_nodes :=
                   n1\<lparr>connect_pending := False,
                      stamp := (now s1)\<lparr>tv_sec := tv_sec (now s1) + 60\<rparr>\<rparr> # dead_nodes s1\<rparr>
         else
           let s2 = s1\<lparr>node_cache := n1 # node_cache s1, cache_count := cache_count s1 + 1\<rparr>
           in if CACHE_MAX < cache_count s2
              then let s3 = free_node (last (node_cache s2)) s2
                   in s3\<lparr>cache_count := cache_count s3 - 1\<rparr>
              else s2)"

definition cache_node :: "node \<Rightarrow> state \<Rightarrow> state" where
  "cache_node n s = uu_cache_node n s"

subsection \<open>Referrals\<close>

text \<open>
  The candidate list is the first \<open>addr_count\<close> entries of the array \<open>addr_list\<close>.
  \<^verbatim>\<open>__store_node\<close> compares the new address with each of them, then grows the array by
  one with \<^verbatim>\<open>realloc\<close> (which may fail: nothing is appended then).
\<close>

definition candidates :: "request \<Rightarrow> sockaddr_in list" where
  "candidates r = take (unat (addr_count r)) (addr_list r)"

definition uu_store_node :: "env \<Rightarrow> sockaddr_in \<Rightarrow> state \<Rightarrow> state" where
  "uu_store_node E a s =
     (if \<exists>u \<in> set (candidates (rq s)). same_addr a u then s
      else
        let k = malloc_calls s; s1 = s\<lparr>malloc_calls := k + 1\<rparr>
        in if \<not> malloc_ok E k then s1
           else s1\<lparr>rq := (rq s1)\<lparr>addr_list := candidates (rq s1) @ [a],
                                   addr_count := addr_count (rq s1) + 1\<rparr>\<rparr>)"

definition store_node :: "ext \<Rightarrow> env \<Rightarrow> string \<Rightarrow> state \<Rightarrow> state" where
  "store_node X E addr_str s =
     (case split_colon (cstr addr_str) of
        None \<Rightarrow> s
      | Some (host, port) \<Rightarrow>
          (case inet_aton X host of
             None \<Rightarrow> s
           | Some ia \<Rightarrow>
               uu_store_node E \<lparr>sin_addr = ia, sin_port = htons (of_int (atoi port))\<rparr> s))"

subsection \<open>Frames\<close>

text \<open>
  \<^verbatim>\<open>proc_msg\<close> gets one line without its terminator. \<^verbatim>\<open>strncmp\<close> with a verb compares
  the first bytes of the line; the argument starts one byte after the verb and is read
  as a C string (a line that is the bare verb has no such byte in C; the argument is
  empty here). The result is the C function's return value \<open>1\<close>.
\<close>

definition proc_msg :: "ext \<Rightarrow> env \<Rightarrow> string \<Rightarrow> node \<Rightarrow> state \<Rightarrow> bool \<times> state" where
  "proc_msg X E msg n s =
     (if take 11 msg = ''store_chunk'' then
        (False,
         if chunk (rq s)
         then s\<lparr>out_buf := base64_decode X (cstr (drop 12 msg)) (out_buf s),
                rq := (rq s)\<lparr>chunk := False\<rparr>\<rparr>
         else s)
      else if take 12 msg = ''request_done'' then
        (if cstr (drop 13 msg) = digest_string X (digest (rq s))
         then (True,
               cache_node n
                 (s\<lparr>rq := (rq s)\<lparr>done_cnt := done_cnt (rq s) + 1,
                                  addr_concurrency := addr_concurrency (rq s) - 1\<rparr>\<rparr>))
         else (False, s))
      else if take 10 msg = ''store_node'' then (False, store_node X E (drop 11 msg) s)
      else (False, s))"

text \<open>\<^verbatim>\<open>evbuffer_find(input, "\r\n", 2)\<close>: the bytes before the first CR LF, and the bytes
  after it.\<close>

fun find_crlf :: "string \<Rightarrow> (string \<times> string) option" where
  "find_crlf (c # d # cs) =
     (if c = CHR 0x0D \<and> d = CHR 0x0A then Some ([], cs)
      else (case find_crlf (d # cs) of
              None \<Rightarrow> None
            | Some (l, r) \<Rightarrow> Some (c # l, r)))"
| "find_crlf cs = None"

lemma find_crlf_shorter: "find_crlf buf = Some (l, r) \<Longrightarrow> length r < length buf"
  by (induction buf arbitrary: l r rule: find_crlf.induct)
     (auto split: if_splits option.splits)

text \<open>The loop of \<^verbatim>\<open>readcb\<close> on the bytes of the node's input buffer; it returns what
  is left in the buffer.\<close>

function readcb_loop ::
  "ext \<Rightarrow> env \<Rightarrow> node \<Rightarrow> bool \<Rightarrow> string \<Rightarrow> state \<Rightarrow> string \<times> state" where
  "readcb_loop X E n drain_all buf s =
     (case find_crlf buf of
        None \<Rightarrow> (buf, s)
      | Some (line, rest) \<Rightarrow>
          (if drain_all then readcb_loop X E n True rest s
           else readcb_loop X E n (fst (proc_msg X E line n s)) rest
                  (snd (proc_msg X E line n s))))"
  by pat_completeness auto
termination
  by (relation "measure (\<lambda>(X, E, n, d, buf, s). length buf)")
     (auto dest: find_crlf_shorter)

declare readcb_loop.simps [simp del]

text \<open>The channel has put the bytes \<open>data\<close> read from the socket at the end of the
  node's input buffer and calls \<^verbatim>\<open>readcb\<close>.\<close>

definition readcb :: "ext \<Rightarrow> env \<Rightarrow> node \<Rightarrow> string \<Rightarrow> state \<Rightarrow> state" where
  "readcb X E n data s =
     (let n1 = n\<lparr>inbuf := inbuf n @ data\<rparr>;
          s1 = upd_node (nid n) (\<lambda>m. m\<lparr>inbuf := inbuf m @ data\<rparr>) s;
          (rest, s2) = readcb_loop X E n1 False (inbuf n1) s1
      in upd_node (nid n) (\<lambda>m. m\<lparr>inbuf := rest\<rparr>) s2)"

definition errorcb :: "node \<Rightarrow> state \<Rightarrow> state" where
  "errorcb n s = free_node n s"

subsection \<open>Connecting and dispatching\<close>

text \<open>
  \<^verbatim>\<open>try_connect\<close>: \<open>k\<close> calls of \<^verbatim>\<open>connect()\<close> are interrupted (\<^verbatim>\<open>EINTR\<close>, \<^verbatim>\<open>goto again\<close>),
  the next one gives \<open>r\<close>.
\<close>

fun try_connect :: "nat \<Rightarrow> connect_res \<Rightarrow> node \<Rightarrow> state \<Rightarrow> state" where
  "try_connect (Suc k) r n s = try_connect k r n s"
| "try_connect 0 r n s =
     (if r = C_OK \<or> r = C_EISCONN
      then upd_node (nid n) (\<lambda>m. m\<lparr>bev_enabled := True\<rparr>) s
      else if r = C_EALREADY \<or> r = C_EINPROGRESS
      then upd_node (nid n) (\<lambda>m. m\<lparr>connect_pending := True\<rparr>) s
      else cache_node (n\<lparr>connect_pending := True\<rparr>)
             (upd_node (nid n) (\<lambda>m. m\<lparr>connect_pending := True\<rparr>) s))"

definition write_request :: "node \<Rightarrow> state \<Rightarrow> node \<times> state" where
  "write_request n s =
     (let n1 = n\<lparr>req_attached := True, outbuf := outbuf n @ evbuf (rq s)\<rparr>
      in (n1, s\<lparr>rq := (rq s)\<lparr>node_list := n1 # node_list (rq s)\<rparr>\<rparr>))"

text \<open>\<^verbatim>\<open>malloc\<close> returns an address that no live node has.\<close>

definition new_nid :: "state \<Rightarrow> nat" where
  "new_nid s =
     Suc (fold max (map nid (node_list (rq s) @ node_cache s @ dead_nodes s)) 0)"

definition send_request_to :: "env \<Rightarrow> sockaddr_in \<Rightarrow> state \<Rightarrow> ret \<times> state" where
  "send_request_to E sa s =
     (case find_node sa s of
        (DeadNode, s1) \<Rightarrow> (NEG_EINVAL, s1)
      | (Found n, s1) \<Rightarrow>
          (let (n1, s2) = write_request n s1
           in (ZERO, upd_node (nid n1) (\<lambda>m. m\<lparr>bev_enabled := True\<rparr>) s2))
      | (NotFound, s1) \<Rightarrow>
          (let k = malloc_calls s1; s2 = s1\<lparr>malloc_calls := k + 1\<rparr>
           in if \<not> malloc_ok E k then (NEG_ENOMEM, s2)
              else
                let j = socket_calls s2; fd = socket_res E j;
                    s3 = s2\<lparr>socket_calls := j + 1\<rparr>
                in if fd < 0 then (NEG_EIO, s3)
                   else
                     let s4 = s3\<lparr>open_fds := insert fd (open_fds s3)\<rparr>;
                         b = bev_calls s4; s5 = s4\<lparr>bev_calls := b + 1\<rparr>
                     in if \<not> bev_ok E b
                        then (NEG_EIO, s5\<lparr>open_fds := open_fds s5 - {fd}\<rparr>)
                        else
                          let n = \<lparr>nid = new_nid s5, addr = sa, sk = fd,
                                   req_attached = False, connect_pending = False,
                                   bev_enabled = False, inbuf = [], outbuf = [],
                                   stamp = \<lparr>tv_sec = 0, tv_usec = 0\<rparr>\<rparr>;
                              (n1, s6) = write_request n s5;
                              n2 = n1\<lparr>bev_enabled := False\<rparr>;
                              s7 = upd_node (nid n) (\<lambda>m. m\<lparr>bev_enabled := False\<rparr>) s6
                          in (ZERO, try_connect (fst (connect_first E j))
                                      (snd (connect_first E j)) n2 s7)))"

subsection \<open>The event loop\<close>

text \<open>
  One call of \<^verbatim>\<open>event_base_loop(base, EVLOOP_ONCE)\<close>: the loop wakes at wall-clock time
  \<open>wake\<close>, runs the callbacks of the events that became active, in order, and returns
  \<open>loop_rc\<close>. An event is the deadline (\<^verbatim>\<open>timeout_cb\<close> only traces; the timer is no
  longer pending), the connect watcher of a node (with what \<^verbatim>\<open>connect()\<close> will
  answer), bytes arriving on a node's channel, or an error on it. The events of a node
  exist while the node is on the request's list; the connect watcher fires only while
  it is pending, and stops being pending when it fires; the channel's callbacks fire
  only while the channel is enabled.
\<close>

datatype event =
    EvTimeout
  | EvConnect nat nat connect_res
  | EvRead nat string
  | EvError nat

record loop_step =
  wake :: timeval
  events :: "event list"
  loop_rc :: int

definition get_node :: "nat \<Rightarrow> state \<Rightarrow> node option" where
  "get_node p s = find (\<lambda>n. nid n = p) (node_list (rq s))"

definition deliver :: "ext \<Rightarrow> env \<Rightarrow> event \<Rightarrow> state \<Rightarrow> state" where
  "deliver X E ev s =
     (case ev of
        EvTimeout \<Rightarrow> s\<lparr>to_pending := False\<rparr>
      | EvConnect p k r \<Rightarrow>
          (case get_node p s of
             None \<Rightarrow> s
           | Some n \<Rightarrow>
               if connect_pending n
               then try_connect k r (n\<lparr>connect_pending := False\<rparr>)
                      (upd_node p (\<lambda>m. m\<lparr>connect_pending := False\<rparr>) s)
               else s)
      | EvRead p data \<Rightarrow>
          (case get_node p s of
             None \<Rightarrow> s
           | Some n \<Rightarrow> if bev_enabled n then readcb X E n data s else s)
      | EvError p \<Rightarrow>
          (case get_node p s of
             None \<Rightarrow> s
           | Some n \<Rightarrow> if bev_enabled n then errorcb n s else s))"

definition event_base_loop :: "ext \<Rightarrow> env \<Rightarrow> loop_step \<Rightarrow> state \<Rightarrow> int \<times> state" where
  "event_base_loop X E st s =
     (loop_rc st, fold (deliver X E) (events st) (s\<lparr>now := wake st\<rparr>))"

text \<open>
  What the functions above leave alone: the caller's buffer, the deadline, the clock
  and every field of the request but its node list and in-flight counter.
\<close>

definition keeps :: "state \<Rightarrow> state \<Rightarrow> bool" where
  "keeps s s' =
     (out_buf s' = out_buf s \<and> to_pending s' = to_pending s \<and> now s' = now s \<and>
      evbuf (rq s') = evbuf (rq s) \<and> chunk (rq s') = chunk (rq s) \<and>
      digest (rq s') = digest (rq s) \<and> addr_list (rq s') = addr_list (rq s) \<and>
      addr_count (rq s') = addr_count (rq s) \<and> addr_index (rq s') = addr_index (rq s) \<and>
      done_cnt (rq s') = done_cnt (rq s))"

lemma keeps_refl [simp]: "keeps s s"
  by (simp add: keeps_def)

lemma keeps_field_upd [simp]:
  "keeps s (t\<lparr>node_cache := a\<rparr>) = keeps s t"
  "keeps s (t\<lparr>dead_nodes := b\<rparr>) = keeps s t"
  "keeps s (t\<lparr>cache_count := c\<rparr>) = keeps s t"
  "keeps s (t\<lparr>open_fds := d\<rparr>) = keeps s t"
  "keeps s (t\<lparr>malloc_calls := e\<rparr>) = keeps s t"
  "keeps s (t\<lparr>socket_calls := f\<rparr>) = keeps s t"
  "keeps s (t\<lparr>bev_calls := g\<rparr>) = keeps s t"
  "keeps s (t\<lparr>rq := (rq t)\<lparr>node_list := h\<rparr>\<rparr>) = keeps s t"
  "keeps s (t\<lparr>rq := (rq t)\<lparr>addr_concurrency := i\<rparr>\<rparr>) = keeps s t"
  by (simp_all add: keeps_def)

lemma keeps_list_del [simp]: "keeps s (list_del p t) = keeps s t"
  by (simp add: keeps_def list_del_def)

lemma keeps_upd_node [simp]: "keeps s (upd_node p f t) = keeps s t"
  by (simp add: keeps_def upd_node_def)

lemma keeps_free_node [simp]: "keeps s (free_node n t) = keeps s t"
  by (simp add: free_node_def Let_def)

lemma keeps_sweep_dead [simp]: "keeps s (snd (sweep_dead sa t ns u)) = keeps s u"
  by (induction ns arbitrary: u) simp_all

lemma keeps_find_node [simp]: "keeps s (snd (find_node sa t)) = keeps s t"
  by (simp add: find_node_def split: option.splits)

lemma keeps_uu_cache_node [simp]: "keeps s (uu_cache_node n t) = keeps s t"
  by (simp add: uu_cache_node_def Let_def)

lemma keeps_cache_node [simp]: "keeps s (cache_node n t) = keeps s t"
  by (simp add: cache_node_def)

lemma keeps_try_connect [simp]: "keeps s (try_connect k r n t) = keeps s t"
  by (induction k) simp_all

lemma keeps_write_request [simp]: "keeps s (snd (write_request n t)) = keeps s t"
  by (simp add: write_request_def Let_def)

lemma keeps_send_request_to [simp]: "keeps s (snd (send_request_to E sa t)) = keeps s t"
proof -
  obtain f t1 where fn: "find_node sa t = (f, t1)"
    by (cases "find_node sa t")
  have k1: "keeps s t1 = keeps s t"
    using keeps_find_node [of s sa t] fn by simp
  have "keeps s (snd (send_request_to E sa t)) = keeps s t1"
    using fn by (cases f) (simp_all add: send_request_to_def Let_def case_prod_beta)
  with k1 show ?thesis by simp
qed

lemma kept_send_request_to:
  "addr_count (rq (snd (send_request_to E sa s))) = addr_count (rq s)"
  "addr_index (rq (snd (send_request_to E sa s))) = addr_index (rq s)"
  using keeps_send_request_to [of s E sa s] by (simp_all add: keeps_def)

lemma unat_sub_suc: "(i::32 word) \<noteq> c \<Longrightarrow> unat (c - (i + 1)) < unat (c - i)"
proof -
  assume "i \<noteq> c"
  then have nz: "c - i \<noteq> 0" by simp
  have e: "c - (i + 1) = (c - i) - 1" by simp
  have "unat ((c - i) - 1) = unat (c - i) - 1" using nz by (rule unat_minus_one)
  moreover have "0 < unat (c - i)" using nz by (simp add: unat_gt_0)
  ultimately show ?thesis unfolding e by simp
qed

subsection \<open>The request engine\<close>

text \<open>
  The inner loop of \<^verbatim>\<open>send_request\<close> (lines 410 to 418). Reading the array past its end
  is undefined in C; nothing is sent here.
\<close>

function dispatch :: "env \<Rightarrow> zdb_info \<Rightarrow> state \<Rightarrow> state" where
  "dispatch E zi s =
     (if addr_index (rq s) = addr_count (rq s) then s
      else if max_concurrency zi \<le> addr_concurrency (rq s) then s
      else
        let s1 = (if unat (addr_index (rq s)) < length (addr_list (rq s))
                  then snd (send_request_to E (addr_list (rq s) ! unat (addr_index (rq s))) s)
                  else s)
        in dispatch E zi
             (s1\<lparr>rq := (rq s1)\<lparr>addr_index := addr_index (rq s1) + 1,
                                 addr_concurrency := addr_concurrency (rq s1) + 1\<rparr>\<rparr>))"
  by pat_completeness auto

termination
  by (relation "measure (\<lambda>(E, zi, s). unat (addr_count (rq s) - addr_index (rq s)))")
     (auto simp: kept_send_request_to unat_sub_suc)

declare dispatch.simps [simp del]

text \<open>
  One turn of the outer loop, in two halves. \<open>loop_top\<close> is lines 410 to 424: dispatch,
  then the two checks that leave the loop; it gives the value to return, or nothing
  when the event loop is to be entered. \<open>loop_bottom\<close> is lines 425 to 437 with the
  step the event loop delivers: \<open>Break r\<close> leaves the loop with \<open>err = r\<close>, \<open>Again e\<close>
  goes round with \<open>err = e\<close>. \<open>rd\<close> says that the parameter \<^verbatim>\<open>chunk\<close> is not null (a
  read), \<open>dg\<close> is the parameter \<^verbatim>\<open>digest\<close>.
\<close>

datatype ctl = Break ret | Again ret

definition loop_top :: "env \<Rightarrow> zdb_info \<Rightarrow> ret \<Rightarrow> state \<Rightarrow> ret option \<times> state" where
  "loop_top E zi err s =
     (let s1 = dispatch E zi s
      in if \<not> to_pending s1 then (Some NEG_ETIMEDOUT, s1)
         else if node_list (rq s1) = [] then (Some err, s1)
         else (None, s1))"

definition loop_bottom ::
  "ext \<Rightarrow> env \<Rightarrow> byte list \<Rightarrow> bool \<Rightarrow> ret \<Rightarrow> loop_step \<Rightarrow> state \<Rightarrow> ctl \<times> state" where
  "loop_bottom X E dg rd err st s1 =
     (let s2 = snd (event_base_loop X E st s1)
      in if fst (event_base_loop X E st s1) \<noteq> 0 then (Break err, s2)
         else if done_cnt (rq s2) = 0 then (Again err, s2)
         else if \<not> rd then (Again CHUNK_SIZE, s2)
         else if \<not> chunk (rq s2) \<and> verify_chunk X (out_buf s2) dg then (Break CHUNK_SIZE, s2)
         else (Again err,
               s2\<lparr>rq := (rq s2)\<lparr>chunk := True, done_cnt := done_cnt (rq s2) - 1\<rparr>\<rparr>))"

text \<open>
  The outer loop of \<^verbatim>\<open>send_request\<close> on a script of event-loop steps. It returns the
  value of \<^verbatim>\<open>err\<close> and the state when the loop is left, or nothing when the script ends
  while the code waits in \<^verbatim>\<open>event_base_loop\<close>.
\<close>

fun request_loop ::
  "ext \<Rightarrow> env \<Rightarrow> zdb_info \<Rightarrow> byte list \<Rightarrow> bool \<Rightarrow> ret \<Rightarrow> loop_step list \<Rightarrow> state
   \<Rightarrow> (ret \<times> state) option" where
  "request_loop X E zi dg rd err [] s =
     (case loop_top E zi err s of
        (Some r, s1) \<Rightarrow> Some (r, s1)
      | (None, s1) \<Rightarrow> None)"
| "request_loop X E zi dg rd err (st # script) s =
     (case loop_top E zi err s of
        (Some r, s1) \<Rightarrow> Some (r, s1)
      | (None, s1) \<Rightarrow>
          (case loop_bottom X E dg rd err st s1 of
             (Break r, s2) \<Rightarrow> Some (r, s2)
           | (Again e, s2) \<Rightarrow> request_loop X E zi dg rd e script s2))"

text \<open>The states in which the code enters \<^verbatim>\<open>event_base_loop\<close>: its suspension points.\<close>

fun suspension_points ::
  "ext \<Rightarrow> env \<Rightarrow> zdb_info \<Rightarrow> byte list \<Rightarrow> bool \<Rightarrow> ret \<Rightarrow> loop_step list \<Rightarrow> state
   \<Rightarrow> state list" where
  "suspension_points X E zi dg rd err [] s =
     (case loop_top E zi err s of
        (Some r, s1) \<Rightarrow> []
      | (None, s1) \<Rightarrow> [s1])"
| "suspension_points X E zi dg rd err (st # script) s =
     (case loop_top E zi err s of
        (Some r, s1) \<Rightarrow> []
      | (None, s1) \<Rightarrow>
          s1 # (case loop_bottom X E dg rd err st s1 of
                  (Break r, s2) \<Rightarrow> []
                | (Again e, s2) \<Rightarrow> suspension_points X E zi dg rd e script s2))"

text \<open>Lines 441 to 444: every node still on the request's list is released.\<close>

lemma uu_cache_node_shrinks:
  "length (node_list (rq (uu_cache_node n s)))
     \<le> length (filter (\<lambda>m. nid m \<noteq> nid n) (node_list (rq s)))"
proof -
  have f: "length (filter P (filter Q xs)) \<le> length (filter Q xs)" for P Q and xs :: "node list"
    by (rule length_filter_le)
  show ?thesis
    using f by (simp add: uu_cache_node_def free_node_def list_del_def Let_def)
qed

function cache_all :: "state \<Rightarrow> state" where
  "cache_all s =
     (case node_list (rq s) of
        [] \<Rightarrow> s
      | n # ns \<Rightarrow> cache_all (uu_cache_node n s))"
  by pat_completeness auto
termination
proof (relation "measure (\<lambda>s. length (node_list (rq s)))")
  show "wf (measure (\<lambda>s. length (node_list (rq s))))" by simp
next
  fix s :: state and n ns
  assume nl: "node_list (rq s) = n # ns"
  have "length (node_list (rq (uu_cache_node n s)))
          \<le> length (filter (\<lambda>m. nid m \<noteq> nid n) (node_list (rq s)))"
    by (rule uu_cache_node_shrinks)
  also have "\<dots> \<le> length ns"
    using nl by simp
  finally show "(uu_cache_node n s, s) \<in> measure (\<lambda>s. length (node_list (rq s)))"
    using nl by simp
qed

declare cache_all.simps [simp del]

text \<open>
  \<^verbatim>\<open>send_request\<close>. \<open>chunk\<close> is the caller's buffer with its contents, or \<open>None\<close> for the
  null pointer of a write. \<open>request_init\<close> is lines 386 to 406 after the event base
  exists; \<open>send_request_run\<close> stops where the outer loop is left, before the clean-up.
\<close>

definition request_init ::
  "env \<Rightarrow> string \<Rightarrow> zdb_info \<Rightarrow> byte list \<Rightarrow> byte list option \<Rightarrow> state \<Rightarrow> state" where
  "request_init E payload zi dg chunk_arg s =
     (let s0 = s\<lparr>rq := \<lparr>evbuf = payload, chunk = (chunk_arg \<noteq> None), digest = dg,
                         node_list = [], addr_list = [], addr_count = 0, addr_index = 0,
                         addr_concurrency = 0, done_cnt = 0\<rparr>,
                  out_buf := (case chunk_arg of None \<Rightarrow> [] | Some b \<Rightarrow> b),
                  to_pending := False\<rparr>;
          s1 = uu_store_node E (start_node zi) s0
      in s1\<lparr>to_pending := True\<rparr>)"

definition send_request_run ::
  "ext \<Rightarrow> env \<Rightarrow> string \<Rightarrow> zdb_info \<Rightarrow> byte list \<Rightarrow> byte list option \<Rightarrow> loop_step list
   \<Rightarrow> state \<Rightarrow> (ret \<times> state) option" where
  "send_request_run X E payload zi dg chunk_arg script s =
     request_loop X E zi dg (chunk_arg \<noteq> None) NEG_EIO script
       (request_init E payload zi dg chunk_arg s)"

definition send_request ::
  "ext \<Rightarrow> env \<Rightarrow> string \<Rightarrow> zdb_info \<Rightarrow> byte list \<Rightarrow> byte list option \<Rightarrow> loop_step list
   \<Rightarrow> state \<Rightarrow> (ret \<times> state) option" where
  "send_request X E payload zi dg chunk_arg script s =
     (if \<not> base_ok E then Some (NEG_EIO, s)
      else (case send_request_run X E payload zi dg chunk_arg script s of
              None \<Rightarrow> None
            | Some (err, s1) \<Rightarrow> Some (err, cache_all s1)))"

definition zdb_read_chunk ::
  "ext \<Rightarrow> env \<Rightarrow> byte list \<Rightarrow> byte list \<Rightarrow> zdb_info \<Rightarrow> loop_step list \<Rightarrow> state
   \<Rightarrow> (ret \<times> state) option" where
  "zdb_read_chunk X E chunk_arg dg zi script s =
     (if \<not> evbuffer_ok E then Some (NEG_ENOMEM, s)
      else if \<not> evbuffer_add_ok E then Some (NEG_EIO, s)
      else send_request X E (''find_chunk '' @ digest_string X dg @ [CHR 0x0D, CHR 0x0A])
             zi dg (Some chunk_arg) script s)"

definition zdb_write_chunk ::
  "ext \<Rightarrow> env \<Rightarrow> byte list \<Rightarrow> byte list \<Rightarrow> zdb_info \<Rightarrow> loop_step list \<Rightarrow> state
   \<Rightarrow> (ret \<times> state) option" where
  "zdb_write_chunk X E chunk_arg dg zi script s =
     (if \<not> evbuffer_ok E then Some (NEG_ENOMEM, s)
      else if \<not> evbuffer_add_ok E then Some (NEG_EIO, s)
      else send_request X E (''store_chunk '' @ base64_encode X chunk_arg @ [CHR 0x0D, CHR 0x0A])
             zi dg None script s)"

subsection \<open>The constructor\<close>







subsection \<open>Host names\<close>

text \<open>
  \<^verbatim>\<open>inet_aton\<close> is a routine of the C library, and a parameter of the functions above.
  \<open>inet_aton_libc\<close> is what the GNU C library's routine computes: one to four numbers
  separated by dots, each written as in C (\<^verbatim>\<open>0x\<close> hexadecimal, a leading \<^verbatim>\<open>0\<close> octal,
  otherwise decimal); every number but the last is one byte, the last fills the bytes
  that are left (\<^verbatim>\<open>a.b.c.d\<close>, \<^verbatim>\<open>a.b.c\<close>, \<^verbatim>\<open>a.b\<close>, \<^verbatim>\<open>a\<close>); the text ends at its end or at
  white space; the address is stored in network byte order. A number too large for
  \<^verbatim>\<open>unsigned long\<close> is refused like any number above the bound of its place, so the
  numbers are unbounded here. \<open>dotted_quad\<close> says that a
  text is a dotted-quad IPv4 literal: four decimal numbers, each at most 255, with
  dots between them.
\<close>

fun dots :: "string \<Rightarrow> string list" where
  "dots [] = [[]]"
| "dots (c # cs) =
     (if c = CHR ''.'' then [] # dots cs
      else (case dots cs of
              [] \<Rightarrow> [[c]]
            | t # ts \<Rightarrow> (c # t) # ts))"

definition hexval :: "char \<Rightarrow> nat option" where
  "hexval c =
     (let k = (of_char c :: nat)
      in if 48 \<le> k \<and> k \<le> 57 then Some (k - 48)
         else if 97 \<le> k \<and> k \<le> 102 then Some (k - 87)
         else if 65 \<le> k \<and> k \<le> 70 then Some (k - 55)
         else None)"

text \<open>The value of a text that consists of digits of base \<open>b\<close> only.\<close>

fun number :: "int \<Rightarrow> int \<Rightarrow> string \<Rightarrow> int option" where
  "number b acc [] = Some acc"
| "number b acc (c # cs) =
     (case hexval c of
        None \<Rightarrow> None
      | Some d \<Rightarrow> if int d < b then number b (acc * b + int d) cs else None)"

definition c_number :: "string \<Rightarrow> int option" where
  "c_number p =
     (if p = [] then None
      else if take 2 p = ''0x'' \<or> take 2 p = ''0X''
      then (if drop 2 p = [] then None else number 16 0 (drop 2 p))
      else if hd p = CHR ''0'' then number 8 0 (tl p)
      else number 10 0 p)"

fun addr_val :: "nat \<Rightarrow> int list \<Rightarrow> int" where
  "addr_val k [] = 0"
| "addr_val k [v] = v"
| "addr_val k (v # vs) = v * 2 ^ k + addr_val (k - 8) vs"

definition inet_aton_libc :: "string \<Rightarrow> 32 word option" where
  "inet_aton_libc s =
     (case those (map c_number (dots (takeWhile (\<lambda>c. \<not> isspace c) s))) of
        None \<Rightarrow> None
      | Some vs \<Rightarrow>
          if vs = [] \<or> 4 < length vs \<or> (\<exists>v \<in> set (butlast vs). 255 < v) \<or>
             2 ^ (8 * (5 - length vs)) \<le> last vs
          then None
          else Some (htonl (of_int (addr_val 24 vs))))"

definition dotted_quad :: "string \<Rightarrow> bool" where
  "dotted_quad s =
     (case those (map (\<lambda>p. if p = [] then None else number 10 0 p) (dots s)) of
        None \<Rightarrow> False
      | Some vs \<Rightarrow> length vs = 4 \<and> (\<forall>v \<in> set vs. v \<le> 255))"

subsection \<open>Invariants of the lists\<close>

text \<open>
  No node object is on two lists or twice on one (a \<^verbatim>\<open>struct node\<close> has one
  \<^verbatim>\<open>node_entry\<close>); \<open>cache_count\<close> is the length of the idle list, which holds at most
  \<open>CACHE_MAX\<close> nodes.
\<close>

definition lists_wf :: "state \<Rightarrow> bool" where
  "lists_wf s = distinct (map nid (node_list (rq s) @ node_cache s @ dead_nodes s))"

definition cache_inv :: "state \<Rightarrow> bool" where
  "cache_inv s =
     (unat (cache_count s) = length (node_cache s) \<and> length (node_cache s) \<le> unat CACHE_MAX)"

text \<open>
  The nodes on the idle list and on the dead list belong to no request
  (\<^verbatim>\<open>__cache_node\<close> sets \<^verbatim>\<open>node->request = NULL\<close> before it files a node).
\<close>

definition detached :: "state \<Rightarrow> bool" where
  "detached s = (\<forall>n \<in> set (node_cache s) \<union> set (dead_nodes s). \<not> req_attached n)"

text \<open>
  The in-flight counter of the request is at least the number of nodes on its list and
  at most \<open>max_concurrency\<close>.
\<close>

definition in_flight_ok :: "zdb_info \<Rightarrow> state \<Rightarrow> bool" where
  "in_flight_ok zi s =
     (length (node_list (rq s)) \<le> unat (addr_concurrency (rq s)) \<and>
      addr_concurrency (rq s) \<le> max_concurrency zi)"

definition flight_inv :: "zdb_info \<Rightarrow> state \<Rightarrow> bool" where
  "flight_inv zi s = (in_flight_ok zi s \<and> detached s)"

text \<open>From \<open>s\<close> to \<open>s'\<close> the request's list has not grown and its counter is the same.\<close>

definition no_grow :: "state \<Rightarrow> state \<Rightarrow> bool" where
  "no_grow s s' =
     (detached s' \<and> addr_concurrency (rq s') = addr_concurrency (rq s) \<and>
      length (node_list (rq s')) \<le> length (node_list (rq s)))"

subsection \<open>Concrete inputs\<close>

text \<open>
  Stand-ins for the library routines (a chunk verifies when it equals its digest, the
  decoder copies the text, three host names are known), an environment in which every
  system call succeeds and every first \<^verbatim>\<open>connect()\<close> is in progress, a start state with
  empty lists, and a configuration with start node 10.0.0.1:7000.
\<close>

definition ex_ext :: ext where
  "ex_ext =
     \<lparr>verify_chunk = (\<lambda>b d. b = d),
      base64_decode = (\<lambda>src old. map (\<lambda>c. of_nat (of_char c)) src),
      base64_encode = (\<lambda>b. map (\<lambda>x. char_of (unat x)) b),
      digest_string = (\<lambda>d. ''d1''),
      inet_aton = (\<lambda>h. if h = ''10.0.0.1'' then Some 1
                        else if h = ''10.0.0.2'' then Some 2
                        else if h = ''10.0.0.3'' then Some 3 else None)\<rparr>"

text \<open>The same routines with the C library's \<^verbatim>\<open>inet_aton\<close>.\<close>

definition ex_libc_ext :: ext where
  "ex_libc_ext = ex_ext\<lparr>inet_aton := inet_aton_libc\<rparr>"

definition ex_env :: env where
  "ex_env =
     \<lparr>base_ok = True, evbuffer_ok = True, evbuffer_add_ok = True,
      malloc_ok = (\<lambda>k. True), socket_res = (\<lambda>k. 3 + int k), bev_ok = (\<lambda>k. True),
      connect_first = (\<lambda>k. (0, C_EINPROGRESS))\<rparr>"

definition ex_req :: request where
  "ex_req =
     \<lparr>evbuf = [], chunk = False, digest = [], node_list = [], addr_list = [],
      addr_count = 0, addr_index = 0, addr_concurrency = 0, done_cnt = 0\<rparr>"

definition ex_state :: state where
  "ex_state =
     \<lparr>rq = ex_req, out_buf = [], to_pending = False, node_cache = [], dead_nodes = [],
      cache_count = 0, now = \<lparr>tv_sec = 1000, tv_usec = 0\<rparr>, open_fds = {},
      malloc_calls = 0, socket_calls = 0, bev_calls = 0\<rparr>"

definition ex_zi :: "32 word \<Rightarrow> zdb_info" where
  "ex_zi m =
     \<lparr>start_node = \<lparr>sin_addr = 1, sin_port = htons 7000\<rparr>,
      timeout = \<lparr>tv_sec = 60, tv_usec = 0\<rparr>, max_concurrency = m\<rparr>"

text \<open>A node for address \<open>a\<close> at object address \<open>p\<close> with socket \<open>fd\<close>, connected or
  still connecting.\<close>

definition ex_node :: "nat \<Rightarrow> 32 word \<Rightarrow> int \<Rightarrow> bool \<Rightarrow> node" where
  "ex_node p a fd pending =
     \<lparr>nid = p, addr = \<lparr>sin_addr = a, sin_port = htons 7000\<rparr>, sk = fd, req_attached = True,
      connect_pending = pending, bev_enabled = \<not> pending, inbuf = [], outbuf = [],
      stamp = \<lparr>tv_sec = 0, tv_usec = 0\<rparr>\<rparr>"

text \<open>The start state with the nodes \<open>ns\<close> on the request's list, and with \<open>k\<close> idle
  nodes in the cache (at object addresses 101 up to 100 + k).\<close>

definition ex_attached :: "node list \<Rightarrow> state" where
  "ex_attached ns = ex_state\<lparr>rq := ex_req\<lparr>node_list := ns\<rparr>\<rparr>"

definition ex_idle :: "nat \<Rightarrow> node" where
  "ex_idle p =
     \<lparr>nid = p, addr = \<lparr>sin_addr = of_nat p, sin_port = htons 7000\<rparr>, sk = int p,
      req_attached = False, connect_pending = False, bev_enabled = False, inbuf = [],
      outbuf = [], stamp = \<lparr>tv_sec = 0, tv_usec = 0\<rparr>\<rparr>"

text \<open>A dead-listed node for address \<open>a\<close>, port 7000, that expires at second \<open>e\<close>.\<close>

definition ex_dead :: "nat \<Rightarrow> 32 word \<Rightarrow> int \<Rightarrow> node" where
  "ex_dead p a e =
     \<lparr>nid = p, addr = \<lparr>sin_addr = a, sin_port = htons 7000\<rparr>, sk = int p,
      req_attached = False, connect_pending = False, bev_enabled = False, inbuf = [],
      outbuf = [], stamp = \<lparr>tv_sec = e, tv_usec = 0\<rparr>\<rparr>"

definition ex_cached :: "nat \<Rightarrow> node list \<Rightarrow> state" where
  "ex_cached k ns =
     (ex_attached ns)\<lparr>node_cache := map ex_idle [101 ..< 101 + k], cache_count := of_nat k\<rparr>"

definition CRLF :: string where
  "CRLF = [CHR 0x0D, CHR 0x0A]"

definition ex_step :: "event list \<Rightarrow> loop_step" where
  "ex_step evs = \<lparr>wake = \<lparr>tv_sec = 1001, tv_usec = 0\<rparr>, events = evs, loop_rc = 0\<rparr>"

text \<open>A call of the event loop that fails.\<close>

definition ex_step_fail :: loop_step where
  "ex_step_fail = \<lparr>wake = \<lparr>tv_sec = 1001, tv_usec = 0\<rparr>, events = [], loop_rc = - 1\<rparr>"

text \<open>A read answered by the start node at once: the connect completes, then the
  peer sends a body and \<^verbatim>\<open>request_done\<close>. The node created for the start node is at
  object address 1.\<close>

definition ex_read_script :: "loop_step list" where
  "ex_read_script =
     [ex_step [EvConnect 1 0 C_OK],
      ex_step [EvRead 1 (''store_chunk AB'' @ CRLF @ ''request_done d1'' @ CRLF)]]"

text \<open>A write whose start node refers to 10.0.0.2:7001 and acknowledges; the second
  peer never answers, and the deadline fires.\<close>

definition ex_write_script :: "loop_step list" where
  "ex_write_script =
     [ex_step [EvConnect 1 0 C_OK],
      ex_step [EvRead 1 (''store_node 10.0.0.2:7001'' @ CRLF @ ''request_done d1'' @ CRLF)],
      ex_step [EvTimeout]]"

text \<open>A read whose start node (the node object at address \<open>p\<close>) refers to
  10.0.0.2:7000 and 10.0.0.3:7000 and reports that it is done, without a body.\<close>

definition ex_referral_script :: "nat \<Rightarrow> loop_step list" where
  "ex_referral_script p =
     [ex_step [EvConnect p 0 C_OK],
      ex_step [EvRead p (''store_node 10.0.0.2:7000'' @ CRLF @ ''store_node 10.0.0.3:7000''
                          @ CRLF @ ''request_done d1'' @ CRLF)]]"

section \<open>Properties\<close>

subsection \<open>Strings\<close>

lemma same_addr_eq: "same_addr a b \<longleftrightarrow> a = b"
  by (auto simp: same_addr_def)




lemma cstr_set: "set (cstr s) \<subseteq> set s"
  by (auto simp: cstr_def dest: set_takeWhileD)






subsection \<open>The start of a request and the turns of its loop\<close>

lemma request_init_fields:
  "node_cache (request_init E payload zi dg ch s) = node_cache s"
  "dead_nodes (request_init E payload zi dg ch s) = dead_nodes s"
  "now (request_init E payload zi dg ch s) = now s"
  "socket_calls (request_init E payload zi dg ch s) = socket_calls s"
  "to_pending (request_init E payload zi dg ch s)"
  "node_list (rq (request_init E payload zi dg ch s)) = []"
  "addr_index (rq (request_init E payload zi dg ch s)) = 0"
  "addr_concurrency (rq (request_init E payload zi dg ch s)) = 0"
  "done_cnt (rq (request_init E payload zi dg ch s)) = 0"
  by (simp_all add: request_init_def uu_store_node_def Let_def candidates_def)

lemma request_init_addrs:
  "addr_count (rq (request_init E payload zi dg ch s)) = 0 \<or>
   (addr_count (rq (request_init E payload zi dg ch s)) = 1 \<and>
    addr_list (rq (request_init E payload zi dg ch s)) = [start_node zi])"
  by (simp add: request_init_def uu_store_node_def Let_def candidates_def)

lemma dispatch_stop:
  "addr_index (rq s) = addr_count (rq s) \<or> max_concurrency zi \<le> addr_concurrency (rq s) \<Longrightarrow>
   dispatch E zi s = s"
  by (subst dispatch.simps) auto

lemma dispatch_step:
  "addr_index (rq s) \<noteq> addr_count (rq s) \<Longrightarrow>
   \<not> max_concurrency zi \<le> addr_concurrency (rq s) \<Longrightarrow>
   unat (addr_index (rq s)) < length (addr_list (rq s)) \<Longrightarrow>
   dispatch E zi s =
     dispatch E zi
       ((snd (send_request_to E (addr_list (rq s) ! unat (addr_index (rq s))) s))
          \<lparr>rq := (rq (snd (send_request_to E (addr_list (rq s) ! unat (addr_index (rq s))) s)))
                   \<lparr>addr_index := addr_index (rq s) + 1,
                    addr_concurrency :=
                      addr_concurrency
                        (rq (snd (send_request_to E (addr_list (rq s) ! unat (addr_index (rq s))) s)))
                      + 1\<rparr>\<rparr>)"
  by (subst dispatch.simps) (simp add: Let_def kept_send_request_to)

lemma loop_top_cases:
  "loop_top E zi err s = (o1, s1) \<Longrightarrow>
   s1 = dispatch E zi s \<and>
   ((o1 = Some NEG_ETIMEDOUT \<and> \<not> to_pending s1) \<or>
    (o1 = Some err \<and> to_pending s1 \<and> node_list (rq s1) = []) \<or>
    (o1 = None \<and> to_pending s1 \<and> node_list (rq s1) \<noteq> []))"
  by (auto simp: loop_top_def Let_def split: if_splits)

subsection \<open>Malformed referrals\<close>

text \<open>
  Claim C10, as stated, fails: \<^verbatim>\<open>store_node\<close> asks \<^verbatim>\<open>inet_aton\<close>, which accepts more than
  dotted quads. With the C library's routine, the frames \<^verbatim>\<open>store_node 1:7000\<close>,
  \<^verbatim>\<open>store_node 0x0a.0.0.3:7000\<close> and \<^verbatim>\<open>store_node 10.0.0.2 x:7000\<close> have host parts that
  are no dotted-quad literals, and each of them appends an address (0.0.0.1, 10.0.0.3
  and 10.0.0.2) to an empty candidate list.
\<close>

theorem store_node_not_dotted_quad_counterexample:
  "candidates (rq (ex_attached [ex_node 1 1 3 False])) = [] \<and>
   \<not> dotted_quad ''1'' \<and>
   candidates (rq (snd (proc_msg ex_libc_ext ex_env ''store_node 1:7000''
                          (ex_node 1 1 3 False) (ex_attached [ex_node 1 1 3 False]))))
     = [\<lparr>sin_addr = htonl 1, sin_port = htons 7000\<rparr>] \<and>
   \<not> dotted_quad ''0x0a.0.0.3'' \<and>
   candidates (rq (snd (proc_msg ex_libc_ext ex_env ''store_node 0x0a.0.0.3:7000''
                          (ex_node 1 1 3 False) (ex_attached [ex_node 1 1 3 False]))))
     = [\<lparr>sin_addr = htonl 0x0A000003, sin_port = htons 7000\<rparr>] \<and>
   \<not> dotted_quad ''10.0.0.2 x'' \<and>
   candidates (rq (snd (proc_msg ex_libc_ext ex_env ''store_node 10.0.0.2 x:7000''
                          (ex_node 1 1 3 False) (ex_attached [ex_node 1 1 3 False]))))
     = [\<lparr>sin_addr = htonl 0x0A000002, sin_port = htons 7000\<rparr>]"
  by code_simp

text \<open>
  Claim C10, amended. A \<^verbatim>\<open>store_node\<close> frame whose payload has no colon, or whose host
  part (the C string before the first colon) \<^verbatim>\<open>inet_aton\<close> rejects, is dropped:
  \<^verbatim>\<open>store_node\<close> leaves the whole state as it was, and \<^verbatim>\<open>proc_msg\<close> on the frame returns
  0 with the state unchanged (candidate list, cursor, counters and everything else).
  This holds for whatever \<^verbatim>\<open>inet_aton\<close> is.
\<close>

theorem store_node_malformed_discarded:
  assumes "CHR '':'' \<notin> set payload \<or>
           inet_aton X (takeWhile (\<lambda>c. c \<noteq> CHR '':'') (cstr payload)) = None"
  shows "store_node X E payload s = s \<and>
         proc_msg X E (''store_node '' @ payload) n s = (False, s)"
proof -
  have sn: "store_node X E payload s = s"
  proof (cases "CHR '':'' \<in> set (cstr payload)")
    case False
    then show ?thesis by (simp add: store_node_def split_colon_def)
  next
    case True
    with cstr_set [of payload] have "CHR '':'' \<in> set payload" by auto
    with assms have "inet_aton X (takeWhile (\<lambda>c. c \<noteq> CHR '':'') (cstr payload)) = None"
      by simp
    with True show ?thesis by (simp add: store_node_def split_colon_def)
  qed
  have "proc_msg X E (''store_node '' @ payload) n s = (False, store_node X E payload s)"
    by (simp add: proc_msg_def)
  with sn show ?thesis by simp
qed

theorem store_node_malformed_discarded_witness:
  "CHR '':'' \<notin> set ''10.0.0.2'' \<and>
   proc_msg ex_libc_ext ex_env ''store_node 10.0.0.2'' (ex_node 1 1 3 False) ex_state
     = (False, ex_state) \<and>
   inet_aton ex_libc_ext (takeWhile (\<lambda>c. c \<noteq> CHR '':'') (cstr ''bogus:7001'')) = None \<and>
   proc_msg ex_libc_ext ex_env ''store_node bogus:7001'' (ex_node 1 1 3 False) ex_state
     = (False, ex_state) \<and>
   inet_aton ex_libc_ext (takeWhile (\<lambda>c. c \<noteq> CHR '':'') (cstr ''10.0.0.256:7001'')) = None \<and>
   proc_msg ex_libc_ext ex_env ''store_node 10.0.0.256:7001'' (ex_node 1 1 3 False) ex_state
     = (False, ex_state)"
proof -
  have h1: "CHR '':'' \<notin> set ''10.0.0.2''"
    by simp
  have h2: "inet_aton ex_libc_ext (takeWhile (\<lambda>c. c \<noteq> CHR '':'') (cstr ''bogus:7001'')) = None"
    by code_simp
  have h3: "inet_aton ex_libc_ext (takeWhile (\<lambda>c. c \<noteq> CHR '':'') (cstr ''10.0.0.256:7001''))
              = None"
    by code_simp
  note t1 = store_node_malformed_discarded
    [where payload = "''10.0.0.2''" and X = ex_libc_ext and E = ex_env and s = ex_state
       and n = "ex_node 1 1 3 False"]
  note t2 = store_node_malformed_discarded
    [where payload = "''bogus:7001''" and X = ex_libc_ext and E = ex_env and s = ex_state
       and n = "ex_node 1 1 3 False"]
  note t3 = store_node_malformed_discarded
    [where payload = "''10.0.0.256:7001''" and X = ex_libc_ext and E = ex_env and s = ex_state
       and n = "ex_node 1 1 3 False"]
  have c1: "proc_msg ex_libc_ext ex_env ''store_node 10.0.0.2'' (ex_node 1 1 3 False) ex_state
              = (False, ex_state)"
    using t1 h1 by simp
  have c2: "proc_msg ex_libc_ext ex_env ''store_node bogus:7001'' (ex_node 1 1 3 False) ex_state
              = (False, ex_state)"
    using t2 h2 by simp
  have c3: "proc_msg ex_libc_ext ex_env ''store_node 10.0.0.256:7001'' (ex_node 1 1 3 False)
              ex_state = (False, ex_state)"
    using t3 h3 by simp
  from h1 h2 h3 c1 c2 c3 show ?thesis by blast
qed

subsection \<open>The port field of the spec\<close>



subsection \<open>The node cache\<close>

lemma unat_inc_small: "unat (c::32 word) \<le> 100 \<Longrightarrow> unat (c + 1) = unat c + 1"
  by (simp add: unat_word_ariths)

lemma cache_max_lt: "unat (c::32 word) \<le> 100 \<Longrightarrow> (CACHE_MAX < c + 1) = (unat c = 100)"
  by (auto simp: CACHE_MAX_def word_less_nat_alt unat_inc_small)

lemma list_del_fields [simp]:
  "rq (list_del p s) = (rq s)\<lparr>node_list := filter (\<lambda>n. nid n \<noteq> p) (node_list (rq s))\<rparr>"
  "node_cache (list_del p s) = filter (\<lambda>n. nid n \<noteq> p) (node_cache s)"
  "dead_nodes (list_del p s) = filter (\<lambda>n. nid n \<noteq> p) (dead_nodes s)"
  "cache_count (list_del p s) = cache_count s"
  "open_fds (list_del p s) = open_fds s"
  "now (list_del p s) = now s"
  "out_buf (list_del p s) = out_buf s"
  "to_pending (list_del p s) = to_pending s"
  "malloc_calls (list_del p s) = malloc_calls s"
  "socket_calls (list_del p s) = socket_calls s"
  "bev_calls (list_del p s) = bev_calls s"
  by (simp_all add: list_del_def)

lemma free_node_fields [simp]:
  "rq (free_node n s) =
     (rq s)\<lparr>addr_concurrency :=
               (if req_attached n then addr_concurrency (rq s) - 1 else addr_concurrency (rq s)),
             node_list := filter (\<lambda>m. nid m \<noteq> nid n) (node_list (rq s))\<rparr>"
  "node_cache (free_node n s) = filter (\<lambda>m. nid m \<noteq> nid n) (node_cache s)"
  "dead_nodes (free_node n s) = filter (\<lambda>m. nid m \<noteq> nid n) (dead_nodes s)"
  "cache_count (free_node n s) = cache_count s"
  "open_fds (free_node n s) = open_fds s - {sk n}"
  "now (free_node n s) = now s"
  "out_buf (free_node n s) = out_buf s"
  "to_pending (free_node n s) = to_pending s"
  "malloc_calls (free_node n s) = malloc_calls s"
  "socket_calls (free_node n s) = socket_calls s"
  "bev_calls (free_node n s) = bev_calls s"
  by (simp_all add: free_node_def Let_def)

lemma uu_cache_node_pending:
  assumes "connect_pending n"
  shows "rq (uu_cache_node n s) = (rq s)\<lparr>node_list := filter (\<lambda>m. nid m \<noteq> nid n) (node_list (rq s))\<rparr>"
    "node_cache (uu_cache_node n s) = filter (\<lambda>m. nid m \<noteq> nid n) (node_cache s)"
    "dead_nodes (uu_cache_node n s) =
          n\<lparr>req_attached := False, bev_enabled := False, connect_pending := False,
            stamp := (now s)\<lparr>tv_sec := tv_sec (now s) + 60\<rparr>\<rparr>
          # filter (\<lambda>m. nid m \<noteq> nid n) (dead_nodes s)"
    "cache_count (uu_cache_node n s) = cache_count s"
    "open_fds (uu_cache_node n s) = open_fds s - {sk n}"
  using assms by (simp_all add: uu_cache_node_def Let_def)

lemma uu_cache_node_keep:
  assumes "\<not> connect_pending n" "\<not> CACHE_MAX < cache_count s + 1"
  shows "rq (uu_cache_node n s) = (rq s)\<lparr>node_list := filter (\<lambda>m. nid m \<noteq> nid n) (node_list (rq s))\<rparr>"
    "node_cache (uu_cache_node n s) =
       n\<lparr>req_attached := False, bev_enabled := False\<rparr> # filter (\<lambda>m. nid m \<noteq> nid n) (node_cache s)"
    "dead_nodes (uu_cache_node n s) = filter (\<lambda>m. nid m \<noteq> nid n) (dead_nodes s)"
    "cache_count (uu_cache_node n s) = cache_count s + 1"
    "open_fds (uu_cache_node n s) = open_fds s"
  using assms by (simp_all add: uu_cache_node_def Let_def)

lemma uu_cache_node_evict:
  assumes "\<not> connect_pending n" "CACHE_MAX < cache_count s + 1"
  shows
    "node_list (rq (uu_cache_node n s)) =
       filter (\<lambda>m. nid m \<noteq> nid (last (n # filter (\<lambda>m. nid m \<noteq> nid n) (node_cache s))))
         (filter (\<lambda>m. nid m \<noteq> nid n) (node_list (rq s)))"
    "node_cache (uu_cache_node n s) =
       filter (\<lambda>m. nid m \<noteq> nid (last (n # filter (\<lambda>m. nid m \<noteq> nid n) (node_cache s))))
        (n\<lparr>req_attached := False, bev_enabled := False\<rparr> # filter (\<lambda>m. nid m \<noteq> nid n) (node_cache s))"
    "dead_nodes (uu_cache_node n s) = 
       filter (\<lambda>m. nid m \<noteq> nid (last (n # filter (\<lambda>m. nid m \<noteq> nid n) (node_cache s))))
         (filter (\<lambda>m. nid m \<noteq> nid n) (dead_nodes s))"
    "cache_count (uu_cache_node n s) = cache_count s"
    "open_fds (uu_cache_node n s) = open_fds s - {sk (last (n # filter (\<lambda>m. nid m \<noteq> nid n) (node_cache s)))}"
  using assms by (simp_all add: uu_cache_node_def Let_def)

lemma filter_nid_absent:
  "p \<notin> nid ` set xs \<Longrightarrow> filter (\<lambda>m. nid m \<noteq> p) xs = xs"
  by (induction xs) auto

lemma filter_nid_last:
  "distinct (map nid xs) \<Longrightarrow> xs \<noteq> [] \<Longrightarrow>
   filter (\<lambda>m. nid m \<noteq> nid (last xs)) xs = butlast xs"
proof (induction xs)
  case Nil
  then show ?case by simp
next
  case (Cons x xs)
  show ?case
  proof (cases "xs = []")
    case True
    then show ?thesis by simp
  next
    case False
    then have "last xs \<in> set xs" by simp
    then have "nid x \<noteq> nid (last xs)" using Cons.prems by auto
    with Cons False show ?thesis by simp
  qed
qed

lemma filter_nid_member:
  "distinct (map nid xs) \<Longrightarrow> n \<in> set xs \<Longrightarrow>
   length (filter (\<lambda>m. nid m \<noteq> nid n) xs) = length xs - 1"
proof (induction xs)
  case Nil
  then show ?case by simp
next
  case (Cons x xs)
  show ?case
  proof (cases "x = n")
    case True
    with Cons.prems have "nid n \<notin> nid ` set xs" by auto
    with True show ?thesis by (simp add: filter_nid_absent)
  next
    case False
    with Cons.prems have m: "n \<in> set xs" by simp
    then have "nid x \<noteq> nid n" using Cons.prems by auto
    moreover have "length xs > 0" using m by (cases xs) auto
    ultimately show ?thesis using Cons m by simp
  qed
qed

lemma lists_wf_list_del: "lists_wf s \<Longrightarrow> lists_wf (list_del p s)"
proof -
  assume "lists_wf s"
  then have "distinct (map nid (filter (\<lambda>n. nid n \<noteq> p)
               (node_list (rq s) @ node_cache s @ dead_nodes s)))"
    unfolding lists_wf_def by (rule distinct_map_filter)
  then show ?thesis by (simp add: lists_wf_def)
qed

lemma lists_wf_free_node: "lists_wf s \<Longrightarrow> lists_wf (free_node n s)"
  using lists_wf_list_del [of s "nid n"] by (simp add: lists_wf_def)

lemma sweep_dead_cache:
  "\<forall>n \<in> set ns. nid n \<notin> nid ` set (node_cache s) \<Longrightarrow>
   node_cache (snd (sweep_dead sa t ns s)) = node_cache s \<and>
   cache_count (snd (sweep_dead sa t ns s)) = cache_count s"
  by (induction ns arbitrary: s) (simp_all add: filter_nid_absent)

lemma lists_wf_sweep_dead: "lists_wf s \<Longrightarrow> lists_wf (snd (sweep_dead sa t ns s))"
  by (induction ns arbitrary: s) (simp_all add: lists_wf_free_node)

lemma find_node_inv:
  assumes wf: "lists_wf s" and ci: "cache_inv s"
  shows "cache_inv (snd (find_node sa s)) \<and> lists_wf (snd (find_node sa s))"
proof (cases "find (\<lambda>n. node_is_addr n sa) (node_cache s)")
  case None
  have "\<forall>n \<in> set (dead_nodes s). nid n \<notin> nid ` set (node_cache s)"
    using wf by (auto simp: lists_wf_def)
  from sweep_dead_cache [OF this] None ci wf show ?thesis
    by (simp add: find_node_def cache_inv_def lists_wf_sweep_dead)
next
  case (Some n)
  then have mem: "n \<in> set (node_cache s)"
    by (auto simp: find_Some_iff)
  have d: "distinct (map nid (node_cache s))" using wf by (simp add: lists_wf_def)
  have len: "length (filter (\<lambda>m. nid m \<noteq> nid n) (node_cache s)) = length (node_cache s) - 1"
    using d mem by (rule filter_nid_member)
  have pos: "0 < length (node_cache s)" using mem by (cases "node_cache s") auto
  with ci have nz: "cache_count s \<noteq> 0" by (auto simp: cache_inv_def)
  have "unat (cache_count s - 1) = unat (cache_count s) - 1"
    using nz by (rule unat_minus_one)
  with len ci pos have "cache_inv (list_del (nid n) (s\<lparr>cache_count := cache_count s - 1\<rparr>))"
    by (auto simp: cache_inv_def)
  moreover have "lists_wf (list_del (nid n) (s\<lparr>cache_count := cache_count s - 1\<rparr>))"
    using wf by (intro lists_wf_list_del) (simp add: lists_wf_def)
  ultimately show ?thesis using Some by (simp add: find_node_def)
qed


lemma lists_wf_fields [simp]:
  "lists_wf (s\<lparr>cache_count := c\<rparr>) = lists_wf s"
  "lists_wf (s\<lparr>open_fds := d\<rparr>) = lists_wf s"
  by (simp_all add: lists_wf_def)

lemma nid_list_del:
  "p \<notin> nid ` set (node_list (rq (list_del p s)))"
  "p \<notin> nid ` set (node_cache (list_del p s))"
  "p \<notin> nid ` set (dead_nodes (list_del p s))"
  by auto

lemma lists_wf_add_dead:
  "lists_wf s \<Longrightarrow> nid n \<notin> nid ` set (node_list (rq s)) \<Longrightarrow>
   nid n \<notin> nid ` set (node_cache s) \<Longrightarrow> nid n \<notin> nid ` set (dead_nodes s) \<Longrightarrow>
   lists_wf (s\<lparr>dead_nodes := n # dead_nodes s\<rparr>)"
  by (auto simp: lists_wf_def)

lemma lists_wf_add_cache:
  "lists_wf s \<Longrightarrow> nid n \<notin> nid ` set (node_list (rq s)) \<Longrightarrow>
   nid n \<notin> nid ` set (node_cache s) \<Longrightarrow> nid n \<notin> nid ` set (dead_nodes s) \<Longrightarrow>
   lists_wf (s\<lparr>node_cache := n # node_cache s\<rparr>)"
  by (auto simp: lists_wf_def)

lemma uu_cache_node_pending_eq:
  "connect_pending n \<Longrightarrow>
   uu_cache_node n s =
     (list_del (nid n) s)
       \<lparr>open_fds := open_fds s - {sk n},
        dead_nodes :=
          n\<lparr>req_attached := False, bev_enabled := False, connect_pending := False,
            stamp := (now s)\<lparr>tv_sec := tv_sec (now s) + 60\<rparr>\<rparr>
          # dead_nodes (list_del (nid n) s)\<rparr>"
  by (simp add: uu_cache_node_def Let_def)

lemma uu_cache_node_idle_eq:
  "\<not> connect_pending n \<Longrightarrow>
   uu_cache_node n s =
     (let s2 = (list_del (nid n) s)
                 \<lparr>node_cache := n\<lparr>req_attached := False, bev_enabled := False\<rparr>
                                  # node_cache (list_del (nid n) s),
                  cache_count := cache_count s + 1\<rparr>
      in if CACHE_MAX < cache_count s + 1
         then (free_node (last (node_cache s2)) s2)\<lparr>cache_count := cache_count s\<rparr>
         else s2)"
  by (simp add: uu_cache_node_def Let_def)

lemma lists_wf_uu_cache_node: "lists_wf s \<Longrightarrow> lists_wf (uu_cache_node n s)"
proof -
  assume wf: "lists_wf s"
  let ?s1 = "list_del (nid n) s"
  have wf1: "lists_wf ?s1" using wf by (rule lists_wf_list_del)
  show ?thesis
  proof (cases "connect_pending n")
    case True
    have "lists_wf (?s1\<lparr>dead_nodes :=
          n\<lparr>req_attached := False, bev_enabled := False, connect_pending := False,
            stamp := (now s)\<lparr>tv_sec := tv_sec (now s) + 60\<rparr>\<rparr> # dead_nodes ?s1\<rparr>)"
      by (rule lists_wf_add_dead [OF wf1]) auto
    then show ?thesis using True
      by (simp add: uu_cache_node_pending_eq lists_wf_def)
  next
    case False
    let ?s2 = "?s1\<lparr>node_cache := n\<lparr>req_attached := False, bev_enabled := False\<rparr> # node_cache ?s1\<rparr>"
    have wf2: "lists_wf ?s2"
      by (rule lists_wf_add_cache [OF wf1]) auto
    then have wf3: "lists_wf (?s2\<lparr>cache_count := cache_count s + 1\<rparr>)" by simp
    have "lists_wf (free_node m (?s2\<lparr>cache_count := cache_count s + 1\<rparr>))" for m
      using wf3 by (rule lists_wf_free_node)
    with wf3 show ?thesis using False
      by (simp add: uu_cache_node_idle_eq Let_def)
  qed
qed

lemma cache_inv_uu_cache_node:
  assumes wf: "lists_wf s" and ci: "cache_inv s"
      and att: "nid n \<in> nid ` set (node_list (rq s))"
  shows "cache_inv (uu_cache_node n s)"
proof -
  have nc: "nid n \<notin> nid ` set (node_cache s)"
    using wf att by (auto simp: lists_wf_def)
  have d: "distinct (map nid (node_cache s))" using wf by (simp add: lists_wf_def)
  have le: "unat (cache_count s) \<le> 100" using ci by (simp add: cache_inv_def CACHE_MAX_def)
  show ?thesis
  proof (cases "connect_pending n")
    case True
    then show ?thesis using ci nc
      by (simp add: cache_inv_def uu_cache_node_pending filter_nid_absent)
  next
    case False
    show ?thesis
    proof (cases "CACHE_MAX < cache_count s + 1")
      case k: False
      then have "unat (cache_count s) \<noteq> 100" using le by (simp add: cache_max_lt)
      with le have "unat (cache_count s) < 100" by simp
      then show ?thesis using ci nc False k le
        by (simp add: cache_inv_def uu_cache_node_keep filter_nid_absent unat_inc_small CACHE_MAX_def)
    next
      case k: True
      then have full: "unat (cache_count s) = 100" using le by (simp add: cache_max_lt)
      then have ne: "node_cache s \<noteq> []" using ci by (auto simp: cache_inv_def)
      then have "last (node_cache s) \<in> set (node_cache s)" by simp
      with nc have neq: "nid n \<noteq> nid (last (node_cache s))" by auto
      have "node_cache (uu_cache_node n s) =
              n\<lparr>req_attached := False, bev_enabled := False\<rparr> # butlast (node_cache s)"
        using False k nc ne neq d
        by (simp add: uu_cache_node_evict filter_nid_absent filter_nid_last)
      then show ?thesis using ci False k ne full
        by (simp add: cache_inv_def uu_cache_node_evict)
    qed
  qed
qed

lemma cache_node_eq: "cache_node n s = uu_cache_node n s"
  by (simp add: cache_node_def)

text \<open>
  Claim C5. The idle list starts empty with \<open>cache_count = 0\<close>, which satisfies the
  invariant. From a state that satisfies it (and in which no node object is on two
  lists), after \<^verbatim>\<open>find_node\<close> for any address, and after \<^verbatim>\<open>cache_node\<close> /
  \<^verbatim>\<open>__cache_node\<close> of any node that is on the request's list, \<open>cache_count\<close> is again the
  length of the idle list and the list holds at most \<open>CACHE_MAX = 100\<close> nodes. When a
  connected node is released into a list of 100, the list becomes the node followed
  by the old list without its last entry, and that entry (the tail, the least
  recently inserted) is on no list any more and its socket is closed; into a shorter
  list the node is just pushed at the head.
\<close>

theorem cache_count_and_bound:
  "cache_inv (s0\<lparr>node_cache := [], cache_count := 0\<rparr>) \<and>
   unat CACHE_MAX = 100 \<and>
   (lists_wf s \<and> cache_inv s \<longrightarrow>
      cache_inv (snd (find_node sa s)) \<and> lists_wf (snd (find_node sa s))) \<and>
   (lists_wf s \<and> cache_inv s \<and> nid n \<in> nid ` set (node_list (rq s)) \<longrightarrow>
      cache_inv (cache_node n s) \<and> lists_wf (cache_node n s) \<and>
      cache_node n s = uu_cache_node n s) \<and>
   (lists_wf s \<and> cache_inv s \<and> nid n \<in> nid ` set (node_list (rq s)) \<and>
    \<not> connect_pending n \<and> length (node_cache s) = unat CACHE_MAX \<longrightarrow>
      node_cache (cache_node n s) =
        n\<lparr>req_attached := False, bev_enabled := False\<rparr> # butlast (node_cache s) \<and>
      nid (last (node_cache s)) \<notin>
        nid ` set (node_list (rq (cache_node n s)) @ node_cache (cache_node n s)
                   @ dead_nodes (cache_node n s)) \<and>
      sk (last (node_cache s)) \<notin> open_fds (cache_node n s)) \<and>
   (lists_wf s \<and> cache_inv s \<and> nid n \<in> nid ` set (node_list (rq s)) \<and>
    \<not> connect_pending n \<and> length (node_cache s) < unat CACHE_MAX \<longrightarrow>
      node_cache (cache_node n s) =
        n\<lparr>req_attached := False, bev_enabled := False\<rparr> # node_cache s)"
proof (intro conjI impI)
  show "cache_inv (s0\<lparr>node_cache := [], cache_count := 0\<rparr>)"
    by (simp add: cache_inv_def)
  show "unat CACHE_MAX = 100"
    by (simp add: CACHE_MAX_def)
next
  assume "lists_wf s \<and> cache_inv s"
  then show "cache_inv (snd (find_node sa s))" "lists_wf (snd (find_node sa s))"
    using find_node_inv [of s sa] by simp_all
next
  assume h: "lists_wf s \<and> cache_inv s \<and> nid n \<in> nid ` set (node_list (rq s))"
  then show "cache_inv (cache_node n s)"
    using cache_inv_uu_cache_node [of s n] by (simp add: cache_node_eq)
  from h show "lists_wf (cache_node n s)"
    using lists_wf_uu_cache_node [of s n] by (simp add: cache_node_eq)
  show "cache_node n s = uu_cache_node n s"
    by (rule cache_node_eq)
next
  assume h: "lists_wf s \<and> cache_inv s \<and> nid n \<in> nid ` set (node_list (rq s)) \<and>
    \<not> connect_pending n \<and> length (node_cache s) = unat CACHE_MAX"
  then have nc: "nid n \<notin> nid ` set (node_cache s)"
    by (auto simp: lists_wf_def)
  have d: "distinct (map nid (node_cache s))" using h by (simp add: lists_wf_def)
  have full: "unat (cache_count s) = 100"
    using h by (simp add: cache_inv_def CACHE_MAX_def)
  then have k: "CACHE_MAX < cache_count s + 1" by (simp add: cache_max_lt)
  have ne: "node_cache s \<noteq> []" using h by (auto simp: CACHE_MAX_def)
  then have lm: "last (node_cache s) \<in> set (node_cache s)" by simp
  with nc have neq: "nid n \<noteq> nid (last (node_cache s))" by auto
  have np: "\<not> connect_pending n" using h by simp
  show "node_cache (cache_node n s) =
          n\<lparr>req_attached := False, bev_enabled := False\<rparr> # butlast (node_cache s)"
    using np k nc ne neq d
    by (simp add: cache_node_eq uu_cache_node_evict filter_nid_absent filter_nid_last)
  show "nid (last (node_cache s)) \<notin>
          nid ` set (node_list (rq (cache_node n s)) @ node_cache (cache_node n s)
                     @ dead_nodes (cache_node n s))"
    using np k nc ne neq
    by (auto simp: cache_node_eq uu_cache_node_evict filter_nid_absent)
  show "sk (last (node_cache s)) \<notin> open_fds (cache_node n s)"
    using np k nc ne
    by (simp add: cache_node_eq uu_cache_node_evict filter_nid_absent)
next
  assume h: "lists_wf s \<and> cache_inv s \<and> nid n \<in> nid ` set (node_list (rq s)) \<and>
    \<not> connect_pending n \<and> length (node_cache s) < unat CACHE_MAX"
  then have nc: "nid n \<notin> nid ` set (node_cache s)"
    by (auto simp: lists_wf_def)
  have le: "unat (cache_count s) \<le> 100" "unat (cache_count s) \<noteq> 100"
    using h by (simp_all add: cache_inv_def CACHE_MAX_def)
  then have k: "\<not> CACHE_MAX < cache_count s + 1" by (simp add: cache_max_lt)
  show "node_cache (cache_node n s) =
          n\<lparr>req_attached := False, bev_enabled := False\<rparr> # node_cache s"
    using h k nc by (simp add: cache_node_eq uu_cache_node_keep filter_nid_absent)
qed

lemma nid_ex_idle: "map nid (map ex_idle xs) = xs"
  by (induction xs) (simp_all add: ex_idle_def)

lemma ex_cached_fields:
  "node_cache (ex_cached k ns) = map ex_idle [101 ..< 101 + k]"
  "cache_count (ex_cached k ns) = of_nat k"
  "node_list (rq (ex_cached k ns)) = ns"
  "dead_nodes (ex_cached k ns) = []"
  by (simp_all add: ex_cached_def ex_attached_def ex_state_def)

lemma ex_cached_wf: "p < 101 \<Longrightarrow> lists_wf (ex_cached k [ex_node p a fd b])"
proof -
  assume p: "p < 101"
  have "map nid (node_cache (ex_cached k [ex_node p a fd b])) = [101 ..< 101 + k]"
    using nid_ex_idle [of "[101 ..< 101 + k]"] by (simp add: ex_cached_fields)
  then show ?thesis
    using p by (simp add: lists_wf_def ex_cached_fields(3,4) ex_node_def)
qed

lemma ex_cached_inv: "k \<le> 100 \<Longrightarrow> cache_inv (ex_cached k ns)"
  by (simp add: cache_inv_def ex_cached_fields CACHE_MAX_def unsigned_of_nat take_bit_nat_eq_self)

lemma ex_cached_nids: "nid ` set (node_cache (ex_cached k ns)) = {101 ..< 101 + k}"
proof -
  have "nid ` set (node_cache (ex_cached k ns)) = set (map nid (map ex_idle [101 ..< 101 + k]))"
    by (simp add: ex_cached_fields image_image)
  then show ?thesis by (simp only: nid_ex_idle set_upt)
qed

lemma ex_node_fields [simp]:
  "nid (ex_node p a fd b) = p" "connect_pending (ex_node p a fd b) = b"
  by (simp_all add: ex_node_def)

theorem cache_count_and_bound_witness:
  "(lists_wf (ex_cached 100 [ex_node 1 1 3 False]) \<and>
    cache_inv (ex_cached 100 [ex_node 1 1 3 False]) \<and>
    nid (ex_node 1 1 3 False) \<in> nid ` set (node_list (rq (ex_cached 100 [ex_node 1 1 3 False]))) \<and>
    \<not> connect_pending (ex_node 1 1 3 False) \<and>
    length (node_cache (ex_cached 100 [ex_node 1 1 3 False])) = unat CACHE_MAX) \<and>
   (cache_inv (snd (find_node \<lparr>sin_addr = 150, sin_port = htons 7000\<rparr>
                      (ex_cached 100 [ex_node 1 1 3 False]))) \<and>
    cache_inv (cache_node (ex_node 1 1 3 False) (ex_cached 100 [ex_node 1 1 3 False])) \<and>
    node_cache (cache_node (ex_node 1 1 3 False) (ex_cached 100 [ex_node 1 1 3 False])) =
      (ex_node 1 1 3 False)\<lparr>req_attached := False, bev_enabled := False\<rparr>
        # butlast (node_cache (ex_cached 100 [ex_node 1 1 3 False])) \<and>
    sk (last (node_cache (ex_cached 100 [ex_node 1 1 3 False])))
      \<notin> open_fds (cache_node (ex_node 1 1 3 False) (ex_cached 100 [ex_node 1 1 3 False]))) \<and>
   (lists_wf (ex_cached 2 [ex_node 1 1 3 False]) \<and>
    cache_inv (ex_cached 2 [ex_node 1 1 3 False]) \<and>
    nid (ex_node 1 1 3 False) \<in> nid ` set (node_list (rq (ex_cached 2 [ex_node 1 1 3 False]))) \<and>
    length (node_cache (ex_cached 2 [ex_node 1 1 3 False])) < unat CACHE_MAX) \<and>
   node_cache (cache_node (ex_node 1 1 3 False) (ex_cached 2 [ex_node 1 1 3 False])) =
     (ex_node 1 1 3 False)\<lparr>req_attached := False, bev_enabled := False\<rparr>
       # node_cache (ex_cached 2 [ex_node 1 1 3 False])"
proof -
  have h1: "lists_wf (ex_cached 100 [ex_node 1 1 3 False]) \<and>
    cache_inv (ex_cached 100 [ex_node 1 1 3 False]) \<and>
    nid (ex_node 1 1 3 False) \<in> nid ` set (node_list (rq (ex_cached 100 [ex_node 1 1 3 False]))) \<and>
    \<not> connect_pending (ex_node 1 1 3 False) \<and>
    length (node_cache (ex_cached 100 [ex_node 1 1 3 False])) = unat CACHE_MAX"
    by (simp add: ex_cached_wf ex_cached_inv ex_cached_fields CACHE_MAX_def)
  have h2: "lists_wf (ex_cached 2 [ex_node 1 1 3 False]) \<and>
    cache_inv (ex_cached 2 [ex_node 1 1 3 False]) \<and>
    nid (ex_node 1 1 3 False) \<in> nid ` set (node_list (rq (ex_cached 2 [ex_node 1 1 3 False]))) \<and>
    length (node_cache (ex_cached 2 [ex_node 1 1 3 False])) < unat CACHE_MAX"
    by (simp add: ex_cached_wf ex_cached_inv ex_cached_fields CACHE_MAX_def)
  note t1 = cache_count_and_bound
    [where s = "ex_cached 100 [ex_node 1 1 3 False]" and n = "ex_node 1 1 3 False"
       and sa = "\<lparr>sin_addr = 150, sin_port = htons 7000\<rparr>" and ?s0.0 = ex_state]
  note t2 = cache_count_and_bound
    [where s = "ex_cached 2 [ex_node 1 1 3 False]" and n = "ex_node 1 1 3 False"
       and sa = "\<lparr>sin_addr = 150, sin_port = htons 7000\<rparr>" and ?s0.0 = ex_state]
  from h1 h2 t1 t2 show ?thesis by blast
qed

subsection \<open>Releasing a node\<close>

text \<open>
  Claim C6. \<^verbatim>\<open>__cache_node\<close> (and \<^verbatim>\<open>cache_node\<close>, which only takes the lock around it) on
  a node \<open>n\<close>. If the node's connect watcher is still pending, its socket is closed
  and the node, detached and with its channel disabled, is put at the head of the
  dead list with the stamp \<open>now + 60\<close> seconds; it is on neither of the other lists.
  Otherwise, for a node that is not already in the idle list and a cache that
  satisfies its invariant, the node, detached from the request (\<open>req_attached\<close>
  false, off the request's list) and with its channel disabled, is the head of the
  idle list, and the dead list does not hold it.
\<close>

theorem release_node:
  "cache_node n s = uu_cache_node n s \<and>
   (connect_pending n \<longrightarrow>
      sk n \<notin> open_fds (uu_cache_node n s) \<and>
      dead_nodes (uu_cache_node n s) =
        n\<lparr>req_attached := False, bev_enabled := False, connect_pending := False,
          stamp := (now s)\<lparr>tv_sec := tv_sec (now s) + 60\<rparr>\<rparr>
        # filter (\<lambda>m. nid m \<noteq> nid n) (dead_nodes s) \<and>
      nid n \<notin> nid ` set (node_list (rq (uu_cache_node n s))) \<and>
      nid n \<notin> nid ` set (node_cache (uu_cache_node n s))) \<and>
   (\<not> connect_pending n \<and> cache_inv s \<and> nid n \<notin> nid ` set (node_cache s) \<longrightarrow>
      node_cache (uu_cache_node n s) \<noteq> [] \<and>
      hd (node_cache (uu_cache_node n s)) = n\<lparr>req_attached := False, bev_enabled := False\<rparr> \<and>
      nid n \<notin> nid ` set (node_list (rq (uu_cache_node n s))) \<and>
      nid n \<notin> nid ` set (dead_nodes (uu_cache_node n s)))"
proof (intro conjI impI)
  show "cache_node n s = uu_cache_node n s" by (rule cache_node_eq)
next
  assume p: "connect_pending n"
  then show "sk n \<notin> open_fds (uu_cache_node n s)"
    by (simp add: uu_cache_node_pending)
  from p show "dead_nodes (uu_cache_node n s) =
        n\<lparr>req_attached := False, bev_enabled := False, connect_pending := False,
          stamp := (now s)\<lparr>tv_sec := tv_sec (now s) + 60\<rparr>\<rparr>
        # filter (\<lambda>m. nid m \<noteq> nid n) (dead_nodes s)"
    by (simp add: uu_cache_node_pending)
  from p show "nid n \<notin> nid ` set (node_list (rq (uu_cache_node n s)))"
    by (auto simp: uu_cache_node_pending)
  from p show "nid n \<notin> nid ` set (node_cache (uu_cache_node n s))"
    by (auto simp: uu_cache_node_pending)
next
  assume h: "\<not> connect_pending n \<and> cache_inv s \<and> nid n \<notin> nid ` set (node_cache s)"
  then have np: "\<not> connect_pending n" and nc: "nid n \<notin> nid ` set (node_cache s)"
    by simp_all
  have le: "unat (cache_count s) \<le> 100" using h by (simp add: cache_inv_def CACHE_MAX_def)
  have cache: "node_cache (uu_cache_node n s) \<noteq> [] \<and>
               hd (node_cache (uu_cache_node n s)) = n\<lparr>req_attached := False, bev_enabled := False\<rparr>"
  proof (cases "CACHE_MAX < cache_count s + 1")
    case False
    with np show ?thesis by (simp add: uu_cache_node_keep)
  next
    case True
    then have "unat (cache_count s) = 100" using le by (simp add: cache_max_lt)
    then have ne: "node_cache s \<noteq> []" using h by (auto simp: cache_inv_def)
    then have "last (node_cache s) \<in> set (node_cache s)" by simp
    with nc have "nid n \<noteq> nid (last (node_cache s))" by auto
    with np True nc ne show ?thesis
      by (simp add: uu_cache_node_evict filter_nid_absent)
  qed
  then show "node_cache (uu_cache_node n s) \<noteq> []"
    and "hd (node_cache (uu_cache_node n s)) = n\<lparr>req_attached := False, bev_enabled := False\<rparr>"
    by simp_all
  show "nid n \<notin> nid ` set (node_list (rq (uu_cache_node n s)))"
    using np by (cases "CACHE_MAX < cache_count s + 1")
                (auto simp: uu_cache_node_keep uu_cache_node_evict)
  show "nid n \<notin> nid ` set (dead_nodes (uu_cache_node n s))"
    using np by (cases "CACHE_MAX < cache_count s + 1")
                (auto simp: uu_cache_node_keep uu_cache_node_evict)
qed

theorem release_node_witness:
  "connect_pending (ex_node 1 1 3 True) \<and>
   sk (ex_node 1 1 3 True) \<notin> open_fds (uu_cache_node (ex_node 1 1 3 True)
                                        (ex_attached [ex_node 1 1 3 True])) \<and>
   dead_nodes (uu_cache_node (ex_node 1 1 3 True) (ex_attached [ex_node 1 1 3 True])) =
     (ex_node 1 1 3 True)
       \<lparr>req_attached := False, bev_enabled := False, connect_pending := False,
        stamp := (now (ex_attached [ex_node 1 1 3 True]))
                   \<lparr>tv_sec := tv_sec (now (ex_attached [ex_node 1 1 3 True])) + 60\<rparr>\<rparr>
     # filter (\<lambda>m. nid m \<noteq> nid (ex_node 1 1 3 True))
         (dead_nodes (ex_attached [ex_node 1 1 3 True])) \<and>
   (\<not> connect_pending (ex_node 1 1 3 False) \<and>
    cache_inv (ex_cached 100 [ex_node 1 1 3 False]) \<and>
    nid (ex_node 1 1 3 False) \<notin> nid ` set (node_cache (ex_cached 100 [ex_node 1 1 3 False]))) \<and>
   hd (node_cache (uu_cache_node (ex_node 1 1 3 False) (ex_cached 100 [ex_node 1 1 3 False])))
     = (ex_node 1 1 3 False)\<lparr>req_attached := False, bev_enabled := False\<rparr> \<and>
   nid (ex_node 1 1 3 False) \<notin>
     nid ` set (node_list (rq (uu_cache_node (ex_node 1 1 3 False)
                                 (ex_cached 100 [ex_node 1 1 3 False]))))"
proof -
  have h1: "connect_pending (ex_node 1 1 3 True)"
    by simp
  have h2: "\<not> connect_pending (ex_node 1 1 3 False) \<and>
    cache_inv (ex_cached 100 [ex_node 1 1 3 False]) \<and>
    nid (ex_node 1 1 3 False) \<notin> nid ` set (node_cache (ex_cached 100 [ex_node 1 1 3 False]))"
    by (simp add: ex_cached_inv ex_cached_nids)
  note t1 = release_node
    [where s = "ex_attached [ex_node 1 1 3 True]" and n = "ex_node 1 1 3 True"]
  note t2 = release_node
    [where s = "ex_cached 100 [ex_node 1 1 3 False]" and n = "ex_node 1 1 3 False"]
  from h1 h2 t1 t2 show ?thesis by blast
qed

subsection \<open>The candidate list\<close>

lemma uu_store_node_cases:
  "rq (uu_store_node E a s) = rq s \<or>
   ((\<forall>u \<in> set (candidates (rq s)). \<not> same_addr a u) \<and>
    rq (uu_store_node E a s) =
      (rq s)\<lparr>addr_list := candidates (rq s) @ [a], addr_count := addr_count (rq s) + 1\<rparr>)"
  by (simp add: uu_store_node_def Let_def candidates_def)

lemma distinct_uu_store_node:
  assumes "distinct (candidates (rq s))"
  shows "distinct (candidates (rq (uu_store_node E a s)))"
proof -
  from uu_store_node_cases [of E a s] show ?thesis
  proof
    assume "rq (uu_store_node E a s) = rq s"
    with assms show ?thesis by simp
  next
    assume h: "(\<forall>u \<in> set (candidates (rq s)). \<not> same_addr a u) \<and>
      rq (uu_store_node E a s) =
        (rq s)\<lparr>addr_list := candidates (rq s) @ [a], addr_count := addr_count (rq s) + 1\<rparr>"
    then have "a \<notin> set (candidates (rq s))" by (auto simp: same_addr_eq)
    with assms have "distinct (candidates (rq s) @ [a])" by simp
    then have "distinct (take (unat (addr_count (rq s) + 1)) (candidates (rq s) @ [a]))"
      by (rule distinct_take)
    with h show ?thesis by (simp add: candidates_def)
  qed
qed

lemma distinct_store_node:
  "distinct (candidates (rq s)) \<Longrightarrow> distinct (candidates (rq (store_node X E p s)))"
  by (simp add: store_node_def distinct_uu_store_node split: option.splits prod.splits)

lemma distinct_store_nodes:
  "distinct (candidates (rq s)) \<Longrightarrow>
   distinct (candidates (rq (fold (store_node X E) ps s)))"
  by (induction ps arbitrary: s) (simp_all add: distinct_store_node)

lemma distinct_request_init:
  "distinct (candidates (rq (request_init E payload zi dg ch s)))"
proof -
  have "distinct (candidates (rq (uu_store_node E (start_node zi)
          (s\<lparr>rq := \<lparr>evbuf = payload, chunk = (ch \<noteq> None), digest = dg,
                         node_list = [], addr_list = [], addr_count = 0, addr_index = 0,
                         addr_concurrency = 0, done_cnt = 0\<rparr>,
                  out_buf := (case ch of None \<Rightarrow> [] | Some b \<Rightarrow> b),
                  to_pending := False\<rparr>))))"
    by (rule distinct_uu_store_node) (simp add: candidates_def)
  then show ?thesis by (simp add: request_init_def Let_def)
qed

lemma candidates_upd [simp]:
  "candidates (r\<lparr>node_list := l\<rparr>) = candidates r"
  "candidates (r\<lparr>addr_concurrency := c\<rparr>) = candidates r"
  "candidates (r\<lparr>addr_index := i\<rparr>) = candidates r"
  "candidates (r\<lparr>done_cnt := d\<rparr>) = candidates r"
  "candidates (r\<lparr>chunk := b\<rparr>) = candidates r"
  by (simp_all add: candidates_def)

lemma candidates_keeps: "keeps s s' \<Longrightarrow> candidates (rq s') = candidates (rq s)"
  by (simp add: keeps_def candidates_def)

lemma distinct_proc_msg:
  assumes "distinct (candidates (rq s))"
  shows "distinct (candidates (rq (snd (proc_msg X E msg n s))))"
proof -
  have "candidates (rq (cache_node n t)) = candidates (rq t)" for t
    by (rule candidates_keeps) simp
  with assms show ?thesis
    by (simp add: proc_msg_def distinct_store_node)
qed

lemma distinct_readcb_loop:
  "distinct (candidates (rq s)) \<Longrightarrow>
   distinct (candidates (rq (snd (readcb_loop X E n d buf s))))"
proof (induction X E n d buf s rule: readcb_loop.induct)
  case (1 X E n drain_all buf s)
  show ?case
  proof (cases "find_crlf buf")
    case None
    with "1.prems" show ?thesis by (subst readcb_loop.simps) simp
  next
    case (Some lr)
    obtain line rest where lr: "lr = (line, rest)" by (cases lr)
    show ?thesis
    proof (cases drain_all)
      case True
      with "1.IH"(1) [OF Some lr [symmetric] True "1.prems"] Some lr show ?thesis
        by (subst readcb_loop.simps) simp
    next
      case False
      have "distinct (candidates (rq (snd (proc_msg X E line n s))))"
        using "1.prems" by (rule distinct_proc_msg)
      with "1.IH"(2) [OF Some lr [symmetric] False] Some lr False show ?thesis
        by (subst readcb_loop.simps) simp
    qed
  qed
qed

lemma distinct_readcb:
  "distinct (candidates (rq s)) \<Longrightarrow> distinct (candidates (rq (readcb X E n data s)))"
proof -
  assume d: "distinct (candidates (rq s))"
  have c: "candidates (rq (upd_node p f t)) = candidates (rq t)" for p f t
    by (rule candidates_keeps) simp
  from d have "distinct (candidates (rq (upd_node (nid n) (\<lambda>m. m\<lparr>inbuf := inbuf m @ data\<rparr>) s)))"
    by (simp add: c)
  then have "distinct (candidates (rq (snd (readcb_loop X E (n\<lparr>inbuf := inbuf n @ data\<rparr>) False
                (inbuf n @ data) (upd_node (nid n) (\<lambda>m. m\<lparr>inbuf := inbuf m @ data\<rparr>) s)))))"
    by (rule distinct_readcb_loop)
  then show ?thesis
    by (simp add: readcb_def Let_def case_prod_beta c)
qed

lemma distinct_deliver:
  "distinct (candidates (rq s)) \<Longrightarrow> distinct (candidates (rq (deliver X E ev s)))"
proof -
  assume d: "distinct (candidates (rq s))"
  have c1: "candidates (rq (try_connect k r n (upd_node p f t))) = candidates (rq t)" for k r n p f t
    by (rule candidates_keeps) simp
  have c2: "candidates (rq (free_node n t)) = candidates (rq t)" for n t
    by (rule candidates_keeps) simp
  have c3: "candidates (rq (t\<lparr>to_pending := b\<rparr>)) = candidates (rq t)" for b t
    by simp
  show ?thesis using d
    by (cases ev) (simp_all add: deliver_def c1 c2 errorcb_def distinct_readcb split: option.splits)
qed

lemma distinct_event_base_loop:
  "distinct (candidates (rq s)) \<Longrightarrow>
   distinct (candidates (rq (snd (event_base_loop X E st s))))"
proof -
  have f: "distinct (candidates (rq t)) \<Longrightarrow> distinct (candidates (rq (fold (deliver X E) evs t)))"
    for evs t
    by (induction evs arbitrary: t) (simp_all add: distinct_deliver)
  assume "distinct (candidates (rq s))"
  then have "distinct (candidates (rq (s\<lparr>now := wake st\<rparr>)))" by simp
  then show ?thesis unfolding event_base_loop_def snd_conv by (rule f)
qed

lemma candidates_dispatch: "candidates (rq (dispatch E zi s)) = candidates (rq s)"
proof (induction E zi s rule: dispatch.induct)
  case (1 E zi s)
  show ?case
  proof (cases "addr_index (rq s) = addr_count (rq s) \<or> max_concurrency zi \<le> addr_concurrency (rq s)")
    case True
    then show ?thesis by (auto simp: dispatch.simps [of E zi s])
  next
    case False
    let ?s1 = "if unat (addr_index (rq s)) < length (addr_list (rq s))
                  then snd (send_request_to E (addr_list (rq s) ! unat (addr_index (rq s))) s)
                  else s"
    have k: "candidates (rq ?s1) = candidates (rq s)"
      by (rule candidates_keeps) simp
    from False have a: "addr_index (rq s) \<noteq> addr_count (rq s)"
      and b: "\<not> max_concurrency zi \<le> addr_concurrency (rq s)" by simp_all
    have "candidates (rq (dispatch E zi s)) = candidates (rq (?s1\<lparr>rq := (rq ?s1)\<lparr>addr_index := addr_index (rq ?s1) + 1,
                                 addr_concurrency := addr_concurrency (rq ?s1) + 1\<rparr>\<rparr>))"
      using "1.IH" [OF a b refl] a b
      by (subst dispatch.simps) (simp add: Let_def)
    also have "\<dots> = candidates (rq ?s1)" by simp
    finally show ?thesis using k by simp
  qed
qed

lemma distinct_loop_top:
  "distinct (candidates (rq s)) \<Longrightarrow> distinct (candidates (rq (snd (loop_top E zi err s))))"
  by (simp add: loop_top_def Let_def candidates_dispatch)

lemma distinct_loop_bottom:
  "distinct (candidates (rq s)) \<Longrightarrow>
   distinct (candidates (rq (snd (loop_bottom X E dg rd err st s))))"
  using distinct_event_base_loop [of s X E st]
  by (simp add: loop_bottom_def Let_def)

lemma distinct_suspension_points:
  "distinct (candidates (rq s)) \<Longrightarrow>
   \<forall>t \<in> set (suspension_points X E zi dg rd err script s). distinct (candidates (rq t))"
proof (induction script arbitrary: err s)
  case Nil
  obtain o1 s1 where lt: "loop_top E zi err s = (o1, s1)" by (cases "loop_top E zi err s")
  have "distinct (candidates (rq s1))"
    using distinct_loop_top [OF Nil, of E zi err] lt by simp
  then show ?case using lt by (cases o1) auto
next
  case (Cons st script)
  obtain o1 s1 where lt: "loop_top E zi err s = (o1, s1)" by (cases "loop_top E zi err s")
  have d1: "distinct (candidates (rq s1))"
    using distinct_loop_top [OF Cons.prems, of E zi err] lt by simp
  obtain c s2 where lb: "loop_bottom X E dg rd err st s1 = (c, s2)"
    by (cases "loop_bottom X E dg rd err st s1")
  have d2: "distinct (candidates (rq s2))"
    using distinct_loop_bottom [OF d1, of X E dg rd err st] lb by simp
  show ?case
    using lt lb d1 Cons.IH [OF d2]
    by (cases o1; cases c) auto
qed

lemma distinct_request_loop:
  "distinct (candidates (rq s)) \<Longrightarrow>
   request_loop X E zi dg rd err script s = Some (r, s') \<Longrightarrow>
   distinct (candidates (rq s'))"
proof (induction script arbitrary: err s)
  case Nil
  obtain o1 s1 where lt: "loop_top E zi err s = (o1, s1)" by (cases "loop_top E zi err s")
  have "distinct (candidates (rq s1))"
    using distinct_loop_top [OF Nil(1), of E zi err] lt by simp
  then show ?case using lt Nil(2) by (cases o1) auto
next
  case (Cons st script)
  obtain o1 s1 where lt: "loop_top E zi err s = (o1, s1)" by (cases "loop_top E zi err s")
  have d1: "distinct (candidates (rq s1))"
    using distinct_loop_top [OF Cons.prems(1), of E zi err] lt by simp
  obtain c s2 where lb: "loop_bottom X E dg rd err st s1 = (c, s2)"
    by (cases "loop_bottom X E dg rd err st s1")
  have d2: "distinct (candidates (rq s2))"
    using distinct_loop_bottom [OF d1, of X E dg rd err st] lb by simp
  show ?case
    using lt lb d1 d2 Cons.IH [OF d2] Cons.prems(2)
    by (cases o1; cases c) auto
qed

text \<open>
  Claim C8. Two addresses are the same (\<^verbatim>\<open>same_addr\<close>) exactly when IPv4 address and
  port agree. \<^verbatim>\<open>__store_node\<close> changes the request only when no candidate is the same
  as the new address, and then the new address is appended and the count goes up by
  one. So a candidate list without duplicates stays without duplicates under any
  sequence of \<^verbatim>\<open>store_node\<close> payloads; the list a request starts with has none; and it
  has none at any suspension point of \<^verbatim>\<open>send_request\<close> nor when its loop is left.
\<close>

theorem candidate_list_no_duplicates:
  "(same_addr a b \<longleftrightarrow> sin_addr a = sin_addr b \<and> sin_port a = sin_port b) \<and>
   (rq (uu_store_node E a s) \<noteq> rq s \<longrightarrow>
      (\<forall>u \<in> set (candidates (rq s)). \<not> same_addr a u) \<and>
      rq (uu_store_node E a s) =
        (rq s)\<lparr>addr_list := candidates (rq s) @ [a], addr_count := addr_count (rq s) + 1\<rparr>) \<and>
   (distinct (candidates (rq s)) \<longrightarrow>
      distinct (candidates (rq (fold (store_node X E) payloads s)))) \<and>
   distinct (candidates (rq (fold (store_node X E) payloads
                               (request_init E payload zi dg ch s)))) \<and>
   (\<forall>t \<in> set (suspension_points X E zi dg (ch \<noteq> None) NEG_EIO script
                  (request_init E payload zi dg ch s)).
      distinct (candidates (rq t))) \<and>
   (send_request_run X E payload zi dg ch script s = Some (r, s') \<longrightarrow>
      distinct (candidates (rq s')))"
proof (intro conjI impI)
  show "same_addr a b \<longleftrightarrow> sin_addr a = sin_addr b \<and> sin_port a = sin_port b"
    by (simp add: same_addr_def)
next
  assume "rq (uu_store_node E a s) \<noteq> rq s"
  with uu_store_node_cases [of E a s]
  show "\<forall>u \<in> set (candidates (rq s)). \<not> same_addr a u"
    and "rq (uu_store_node E a s) =
        (rq s)\<lparr>addr_list := candidates (rq s) @ [a], addr_count := addr_count (rq s) + 1\<rparr>"
    by blast+
next
  assume "distinct (candidates (rq s))"
  then show "distinct (candidates (rq (fold (store_node X E) payloads s)))"
    by (rule distinct_store_nodes)
next
  show "distinct (candidates (rq (fold (store_node X E) payloads
                               (request_init E payload zi dg ch s))))"
    by (rule distinct_store_nodes [OF distinct_request_init])
next
  show "\<forall>t \<in> set (suspension_points X E zi dg (ch \<noteq> None) NEG_EIO script
                  (request_init E payload zi dg ch s)).
      distinct (candidates (rq t))"
    by (rule distinct_suspension_points [OF distinct_request_init])
next
  assume "send_request_run X E payload zi dg ch script s = Some (r, s')"
  then show "distinct (candidates (rq s'))"
    unfolding send_request_run_def
    by (rule distinct_request_loop [OF distinct_request_init])
qed

theorem candidate_list_no_duplicates_witness:
  "rq (uu_store_node ex_env \<lparr>sin_addr = 2, sin_port = 7001\<rparr>
         (request_init ex_env ''p'' (ex_zi 5) [65, 66] None ex_state))
     \<noteq> rq (request_init ex_env ''p'' (ex_zi 5) [65, 66] None ex_state) \<and>
   rq (uu_store_node ex_env \<lparr>sin_addr = 2, sin_port = 7001\<rparr>
         (request_init ex_env ''p'' (ex_zi 5) [65, 66] None ex_state))
     = (rq (request_init ex_env ''p'' (ex_zi 5) [65, 66] None ex_state))
         \<lparr>addr_list :=
            candidates (rq (request_init ex_env ''p'' (ex_zi 5) [65, 66] None ex_state))
            @ [\<lparr>sin_addr = 2, sin_port = 7001\<rparr>],
          addr_count :=
            addr_count (rq (request_init ex_env ''p'' (ex_zi 5) [65, 66] None ex_state)) + 1\<rparr> \<and>
   distinct (candidates (rq (request_init ex_env ''p'' (ex_zi 5) [65, 66] None ex_state))) \<and>
   distinct (candidates (rq (fold (store_node ex_ext ex_env)
      [''10.0.0.2:7001'', ''10.0.0.2:7001'', ''10.0.0.1:7000'']
      (request_init ex_env ''p'' (ex_zi 5) [65, 66] None ex_state)))) \<and>
   length (candidates (rq (fold (store_node ex_ext ex_env)
      [''10.0.0.2:7001'', ''10.0.0.2:7001'', ''10.0.0.1:7000'']
      (request_init ex_env ''p'' (ex_zi 5) [65, 66] None ex_state)))) = 2 \<and>
   suspension_points ex_ext ex_env (ex_zi 5) [65, 66] True NEG_EIO ex_read_script
     (request_init ex_env ''p'' (ex_zi 5) [65, 66] (Some [0, 0]) ex_state) \<noteq> [] \<and>
   distinct (candidates (rq (hd
     (suspension_points ex_ext ex_env (ex_zi 5) [65, 66] True NEG_EIO ex_read_script
        (request_init ex_env ''p'' (ex_zi 5) [65, 66] (Some [0, 0]) ex_state))))) \<and>
   send_request_run ex_ext ex_env ''p'' (ex_zi 5) [65, 66] (Some [0, 0]) ex_read_script ex_state
     \<noteq> None \<and>
   distinct (candidates (rq (snd (the
     (send_request_run ex_ext ex_env ''p'' (ex_zi 5) [65, 66] (Some [0, 0]) ex_read_script
        ex_state)))))"
proof -
  let ?S = "request_init ex_env ''p'' (ex_zi 5) [65, 66] None ex_state"
  let ?P = "[''10.0.0.2:7001'', ''10.0.0.2:7001'', ''10.0.0.1:7000'']"
  let ?SP = "suspension_points ex_ext ex_env (ex_zi 5) [65, 66] True NEG_EIO ex_read_script
     (request_init ex_env ''p'' (ex_zi 5) [65, 66] (Some [0, 0]) ex_state)"
  let ?R = "send_request_run ex_ext ex_env ''p'' (ex_zi 5) [65, 66] (Some [0, 0])
              ex_read_script ex_state"
  have h1: "rq (uu_store_node ex_env \<lparr>sin_addr = 2, sin_port = 7001\<rparr> ?S) \<noteq> rq ?S"
    by code_simp
  have h2: "distinct (candidates (rq ?S))"
    by code_simp
  have h3: "length (candidates (rq (fold (store_node ex_ext ex_env) ?P ?S))) = 2"
    by code_simp
  have h4: "?SP \<noteq> []"
    by code_simp
  have h5: "?R \<noteq> None"
    by code_simp
  then have h6: "?R = Some (fst (the ?R), snd (the ?R))"
    by auto
  have h7: "(Some [0, 0::byte] \<noteq> None) = True"
    by simp
  note t1 = candidate_list_no_duplicates
    [where E = ex_env and X = ex_ext and a = "\<lparr>sin_addr = 2, sin_port = 7001\<rparr>" and s = ?S
       and payloads = ?P and payload = "''p''" and zi = "ex_zi 5" and dg = "[65, 66]"
       and ch = "Some [0, 0]" and script = ex_read_script]
  note t2 = candidate_list_no_duplicates
    [where E = ex_env and X = ex_ext and payloads = ?P and payload = "''p''" and zi = "ex_zi 5"
       and dg = "[65, 66]" and ch = None and s = ex_state]
  note t3 = candidate_list_no_duplicates
    [where E = ex_env and X = ex_ext and payload = "''p''" and zi = "ex_zi 5"
       and dg = "[65, 66]" and ch = "Some [0, 0]" and s = ex_state and script = ex_read_script
       and r = "fst (the ?R)" and s' = "snd (the ?R)", unfolded h7]
  from h4 have "hd ?SP \<in> set ?SP" by (rule hd_in_set)
  with t3 have c4: "distinct (candidates (rq (hd ?SP)))" by blast
  from t3 h6 have c5: "distinct (candidates (rq (snd (the ?R))))" by blast
  from t1 h1 have c1: "rq (uu_store_node ex_env \<lparr>sin_addr = 2, sin_port = 7001\<rparr> ?S)
     = (rq ?S)\<lparr>addr_list := candidates (rq ?S) @ [\<lparr>sin_addr = 2, sin_port = 7001\<rparr>],
                addr_count := addr_count (rq ?S) + 1\<rparr>" by blast
  from t2 have c3: "distinct (candidates (rq (fold (store_node ex_ext ex_env) ?P ?S)))" by blast
  from h1 c1 h2 c3 h3 h4 c4 h5 c5 show ?thesis by blast
qed

subsection \<open>The result of a read\<close>

lemma keeps_cache_all [simp]: "keeps s (cache_all t) = keeps s t"
proof (induction t rule: cache_all.induct)
  case (1 t)
  show ?case
  proof (cases "node_list (rq t)")
    case Nil
    then show ?thesis by (simp add: cache_all.simps [of t])
  next
    case (Cons n ns)
    with "1.IH" [OF Cons] show ?thesis by (simp add: cache_all.simps [of t])
  qed
qed

lemma loop_top_ret:
  "loop_top E zi err s = (Some r, s1) \<Longrightarrow> r = NEG_ETIMEDOUT \<or> r = err"
  by (auto simp: loop_top_def Let_def split: if_splits)

lemma loop_bottom_read:
  "loop_bottom X E dg True err st s1 = (c, s2) \<Longrightarrow>
   c = Break err \<or> c = Again err \<or>
   (c = Break CHUNK_SIZE \<and> verify_chunk X (out_buf s2) dg \<and> \<not> chunk (rq s2))"
  by (auto simp: loop_bottom_def Let_def split: if_splits)

lemma request_loop_read:
  "err \<noteq> CHUNK_SIZE \<Longrightarrow>
   request_loop X E zi dg True err script s = Some (CHUNK_SIZE, s') \<Longrightarrow>
   verify_chunk X (out_buf s') dg \<and> \<not> chunk (rq s')"
proof (induction script arbitrary: err s)
  case Nil
  obtain o1 s1 where lt: "loop_top E zi err s = (o1, s1)" by (cases "loop_top E zi err s")
  with Nil loop_top_ret [of E zi err s] show ?case
    by (cases o1) auto
next
  case (Cons st script)
  obtain o1 s1 where lt: "loop_top E zi err s = (o1, s1)" by (cases "loop_top E zi err s")
  show ?case
  proof (cases o1)
    case (Some r)
    with lt Cons.prems loop_top_ret [of E zi err s r s1] show ?thesis by auto
  next
    case None
    obtain c s2 where lb: "loop_bottom X E dg True err st s1 = (c, s2)"
      by (cases "loop_bottom X E dg True err st s1")
    from loop_bottom_read [OF lb] show ?thesis
    proof (elim disjE)
      assume "c = Break err"
      with lt None lb Cons.prems show ?thesis by simp
    next
      assume "c = Again err"
      with lt None lb Cons.prems Cons.IH [of err s2] show ?thesis by simp
    next
      assume "c = Break CHUNK_SIZE \<and> verify_chunk X (out_buf s2) dg \<and> \<not> chunk (rq s2)"
      with lt None lb Cons.prems show ?thesis by simp
    qed
  qed
qed

lemma send_request_read:
  assumes "send_request X E payload zi dg (Some b) script s = Some (CHUNK_SIZE, s')"
  shows "verify_chunk X (out_buf s') dg \<and> \<not> chunk (rq s')"
proof -
  from assms obtain s1 where
    run: "send_request_run X E payload zi dg (Some b) script s = Some (CHUNK_SIZE, s1)"
    and s': "s' = cache_all s1"
    by (auto simp: send_request_def split: if_splits option.splits)
  from run have v: "verify_chunk X (out_buf s1) dg \<and> \<not> chunk (rq s1)"
    unfolding send_request_run_def by (intro request_loop_read [of NEG_EIO]) simp_all
  have "keeps s1 (cache_all s1)" by simp
  then have "out_buf (cache_all s1) = out_buf s1" "chunk (rq (cache_all s1)) = chunk (rq s1)"
    by (simp_all add: keeps_def)
  with v s' show ?thesis by simp
qed

text \<open>
  Claim C1. Whenever \<^verbatim>\<open>send_request\<close> with a chunk buffer, or \<^verbatim>\<open>zdb_read_chunk\<close>, returns
  \<^verbatim>\<open>CHUNK_SIZE\<close>, the bytes in the caller's buffer at return verify against the digest,
  and a candidate body had been captured (\<^verbatim>\<open>request.chunk\<close> is null).
\<close>

theorem read_success_is_verified:
  "(send_request X E payload zi dg (Some b) script s = Some (CHUNK_SIZE, s') \<longrightarrow>
      verify_chunk X (out_buf s') dg \<and> \<not> chunk (rq s')) \<and>
   (zdb_read_chunk X E b dg zi script s = Some (CHUNK_SIZE, s') \<longrightarrow>
      verify_chunk X (out_buf s') dg \<and> \<not> chunk (rq s'))"
proof (rule conjI; rule impI)
  assume "send_request X E payload zi dg (Some b) script s = Some (CHUNK_SIZE, s')"
  then show "verify_chunk X (out_buf s') dg \<and> \<not> chunk (rq s')"
    by (rule send_request_read)
next
  assume "zdb_read_chunk X E b dg zi script s = Some (CHUNK_SIZE, s')"
  then have "send_request X E (''find_chunk '' @ digest_string X dg @ [CHR 0x0D, CHR 0x0A])
               zi dg (Some b) script s = Some (CHUNK_SIZE, s')"
    by (simp add: zdb_read_chunk_def split: if_splits)
  then show "verify_chunk X (out_buf s') dg \<and> \<not> chunk (rq s')"
    by (rule send_request_read)
qed

theorem read_success_is_verified_witness:
  "zdb_read_chunk ex_ext ex_env [0, 0] [65, 66] (ex_zi 5) ex_read_script ex_state =
     Some (CHUNK_SIZE,
           snd (the (zdb_read_chunk ex_ext ex_env [0, 0] [65, 66] (ex_zi 5) ex_read_script
                       ex_state))) \<and>
   out_buf (snd (the (zdb_read_chunk ex_ext ex_env [0, 0] [65, 66] (ex_zi 5) ex_read_script
                        ex_state))) = [65, 66] \<and>
   verify_chunk ex_ext
     (out_buf (snd (the (zdb_read_chunk ex_ext ex_env [0, 0] [65, 66] (ex_zi 5) ex_read_script
                           ex_state)))) [65, 66]"
proof -
  let ?R = "zdb_read_chunk ex_ext ex_env [0, 0] [65, 66] (ex_zi 5) ex_read_script ex_state"
  have "map_option fst ?R = Some CHUNK_SIZE"
    by code_simp
  then have h: "?R = Some (CHUNK_SIZE, snd (the ?R))"
    by (cases ?R) auto
  have b: "out_buf (snd (the ?R)) = [65, 66]"
    by code_simp
  note t = read_success_is_verified
    [where X = ex_ext and E = ex_env and b = "[0, 0]" and dg = "[65, 66]" and zi = "ex_zi 5"
       and script = ex_read_script and s = ex_state and s' = "snd (the ?R)"]
  from t h have "verify_chunk ex_ext (out_buf (snd (the ?R))) [65, 66]" by blast
  with h b show ?thesis by blast
qed

subsection \<open>A dead-listed start node\<close>

lemma sweep_dead_hits:
  "\<exists>n \<in> set ns. node_is_addr n sa \<and> \<not> timercmp_gt t (stamp n) \<Longrightarrow>
   fst (sweep_dead sa t ns s) = DeadNode"
  by (induction ns arbitrary: s) auto

lemma sweep_dead_quiet:
  "node_list (rq s) = [] \<Longrightarrow>
   node_list (rq (snd (sweep_dead sa t ns s))) = [] \<and>
   socket_calls (snd (sweep_dead sa t ns s)) = socket_calls s"
  by (induction ns arbitrary: s) simp_all

lemma dead_start_dispatch:
  assumes dead: "\<exists>n \<in> set (dead_nodes s). node_is_addr n sa \<and> \<not> timercmp_gt (now s) (stamp n)"
      and nocache: "\<forall>n \<in> set (node_cache s). \<not> node_is_addr n sa"
      and empty: "node_list (rq s) = []"
  shows "fst (send_request_to E sa s) = NEG_EINVAL \<and>
         node_list (rq (snd (send_request_to E sa s))) = [] \<and>
         socket_calls (snd (send_request_to E sa s)) = socket_calls s \<and>
         keeps s (snd (send_request_to E sa s))"
proof -
  have nf: "find (\<lambda>n. node_is_addr n sa) (node_cache s) = None"
    using nocache by (simp add: find_None_iff)
  have fn: "find_node sa s = sweep_dead sa (now s) (dead_nodes s) s"
    using nf by (simp add: find_node_def)
  obtain s1 where sw: "sweep_dead sa (now s) (dead_nodes s) s = (DeadNode, s1)"
    using sweep_dead_hits [OF dead, of s] by (cases "sweep_dead sa (now s) (dead_nodes s) s") auto
  have q: "node_list (rq s1) = [] \<and> socket_calls s1 = socket_calls s"
    using sweep_dead_quiet [OF empty, of sa "now s" "dead_nodes s"] sw by simp
  have k: "keeps s s1"
    using keeps_sweep_dead [of s sa "now s" "dead_nodes s" s] sw by simp
  show ?thesis using fn sw q k by (simp add: send_request_to_def)
qed

lemma dead_start_loop_top:
  assumes dead: "\<exists>n \<in> set (dead_nodes s). node_is_addr n (start_node zi) \<and>
                   \<not> timercmp_gt (now s) (stamp n)"
      and nocache: "\<forall>n \<in> set (node_cache s). \<not> node_is_addr n (start_node zi)"
  shows "\<exists>s1. loop_top E zi NEG_EIO (request_init E payload zi dg ch s) = (Some NEG_EIO, s1) \<and>
           node_list (rq s1) = [] \<and> socket_calls s1 = socket_calls s"
proof -
  let ?S = "request_init E payload zi dg ch s"
  let ?D = "dispatch E zi ?S"
  have d: "to_pending ?D \<and> node_list (rq ?D) = [] \<and> socket_calls ?D = socket_calls s"
  proof (cases "addr_index (rq ?S) = addr_count (rq ?S) \<or>
                max_concurrency zi \<le> addr_concurrency (rq ?S)")
    case True
    then have "?D = ?S" by (rule dispatch_stop)
    then show ?thesis by (simp add: request_init_fields)
  next
    case False
    with request_init_addrs [of E payload zi dg ch s]
    have a: "addr_count (rq ?S) = 1" "addr_list (rq ?S) = [start_node zi]"
      by (auto simp: request_init_fields)
    let ?T = "snd (send_request_to E (start_node zi) ?S)"
    have t: "fst (send_request_to E (start_node zi) ?S) = NEG_EINVAL \<and>
         node_list (rq ?T) = [] \<and> socket_calls ?T = socket_calls ?S \<and> keeps ?S ?T"
      using dead nocache
      by (intro dead_start_dispatch) (simp_all add: request_init_fields)
    let ?U = "?T\<lparr>rq := (rq ?T)\<lparr>addr_index := addr_index (rq ?S) + 1,
                    addr_concurrency := addr_concurrency (rq ?T) + 1\<rparr>\<rparr>"
    have "?D = dispatch E zi ?U"
      using False a by (subst dispatch_step) (simp_all add: request_init_fields)
    also have "\<dots> = ?U"
      using t a by (intro dispatch_stop) (simp add: keeps_def request_init_fields)
    finally show ?thesis using t by (simp add: keeps_def request_init_fields)
  qed
  then show ?thesis by (simp add: loop_top_def Let_def)
qed


text \<open>
  Claim C7, as stated, fails: \<^verbatim>\<open>find_node\<close> looks in the idle list first. Here the start
  node 10.0.0.1:7000 has an entry in the dead list that expires at second 2000 (the
  clock reads 1000), and the idle list holds a connected node for the same address
  (which happens when two requests ran at once). The write takes the idle node, which
  is on the request's list at its one suspension point, and returns \<^verbatim>\<open>CHUNK_SIZE\<close> when
  the peer answers.
\<close>

theorem dead_start_node_counterexample:
  "ex_dead 51 1 2000 \<in> set (dead_nodes (ex_state\<lparr>node_cache := [ex_idle 1], cache_count := 1,
                                                  dead_nodes := [ex_dead 51 1 2000]\<rparr>)) \<and>
   node_is_addr (ex_dead 51 1 2000) (start_node (ex_zi 5)) \<and>
   \<not> timercmp_gt (now (ex_state\<lparr>node_cache := [ex_idle 1], cache_count := 1,
                                dead_nodes := [ex_dead 51 1 2000]\<rparr>))
                   (stamp (ex_dead 51 1 2000)) \<and>
   map_option fst
     (send_request ex_ext ex_env ''store_chunk AB'' (ex_zi 5) [65, 66] None
        [ex_step [EvRead 1 (''request_done d1'' @ CRLF)]]
        (ex_state\<lparr>node_cache := [ex_idle 1], cache_count := 1,
                  dead_nodes := [ex_dead 51 1 2000]\<rparr>)) = Some CHUNK_SIZE \<and>
   map (\<lambda>t. map nid (node_list (rq t)))
     (suspension_points ex_ext ex_env (ex_zi 5) [65, 66] False NEG_EIO
        [ex_step [EvRead 1 (''request_done d1'' @ CRLF)]]
        (request_init ex_env ''store_chunk AB'' (ex_zi 5) [65, 66] None
           (ex_state\<lparr>node_cache := [ex_idle 1], cache_count := 1,
                     dead_nodes := [ex_dead 51 1 2000]\<rparr>))) = [[1]]"
  by code_simp

text \<open>
  Claim C7, amended. If the dead list holds an entry for the start node's address that
  has not expired and the idle list holds no node for that address, then the dispatch
  to the start node returns \<^verbatim>\<open>-EINVAL\<close>, and for every script \<^verbatim>\<open>send_request\<close> returns
  \<^verbatim>\<open>-EIO\<close> without entering the event loop: there is no suspension point, no node is on
  the request's list when the loop is left, and no call of \<^verbatim>\<open>socket()\<close> has been made.
\<close>

theorem dead_start_node_fails:
  assumes dead: "\<exists>n \<in> set (dead_nodes s). node_is_addr n (start_node zi) \<and>
                   \<not> timercmp_gt (now s) (stamp n)"
      and nocache: "\<forall>n \<in> set (node_cache s). \<not> node_is_addr n (start_node zi)"
  shows "fst (send_request_to E (start_node zi) (request_init E payload zi dg ch s))
           = NEG_EINVAL \<and>
         suspension_points X E zi dg (ch \<noteq> None) NEG_EIO script
           (request_init E payload zi dg ch s) = [] \<and>
         (\<exists>s1. send_request_run X E payload zi dg ch script s = Some (NEG_EIO, s1) \<and>
               node_list (rq s1) = [] \<and> socket_calls s1 = socket_calls s) \<and>
         (\<exists>s'. send_request X E payload zi dg ch script s = Some (NEG_EIO, s') \<and>
               (base_ok E \<longrightarrow> node_list (rq s') = []) \<and>
               socket_calls s' = socket_calls s)"
proof -
  let ?S = "request_init E payload zi dg ch s"
  have a: "fst (send_request_to E (start_node zi) ?S) = NEG_EINVAL"
    using dead nocache
    by (intro dead_start_dispatch [THEN conjunct1]) (simp_all add: request_init_fields)
  from dead_start_loop_top [OF dead nocache, of E payload dg ch]
  obtain s1 where lt: "loop_top E zi NEG_EIO ?S = (Some NEG_EIO, s1)"
    and q: "node_list (rq s1) = []" "socket_calls s1 = socket_calls s"
    by blast
  have b: "suspension_points X E zi dg (ch \<noteq> None) NEG_EIO script ?S = []"
    using lt by (cases script) simp_all
  have c: "send_request_run X E payload zi dg ch script s = Some (NEG_EIO, s1)"
    using lt by (cases script) (simp_all add: send_request_run_def)
  have ca: "cache_all s1 = s1"
    using q by (subst cache_all.simps) simp
  have d: "\<exists>s'. send_request X E payload zi dg ch script s = Some (NEG_EIO, s') \<and>
               (base_ok E \<longrightarrow> node_list (rq s') = []) \<and>
               socket_calls s' = socket_calls s"
    using c ca q by (simp add: send_request_def)
  from a b c q d show ?thesis by blast
qed

theorem dead_start_node_fails_witness:
  "ex_dead 51 1 2000 \<in> set (dead_nodes (ex_state\<lparr>dead_nodes := [ex_dead 51 1 2000]\<rparr>)) \<and>
   node_is_addr (ex_dead 51 1 2000) (start_node (ex_zi 5)) \<and>
   \<not> timercmp_gt (now (ex_state\<lparr>dead_nodes := [ex_dead 51 1 2000]\<rparr>)) (stamp (ex_dead 51 1 2000)) \<and>
   node_cache (ex_state\<lparr>dead_nodes := [ex_dead 51 1 2000]\<rparr>) = [] \<and>
   suspension_points ex_ext ex_env (ex_zi 5) [65, 66] True NEG_EIO ex_read_script
     (request_init ex_env ''find_chunk d1'' (ex_zi 5) [65, 66] (Some [0, 0])
        (ex_state\<lparr>dead_nodes := [ex_dead 51 1 2000]\<rparr>)) = [] \<and>
   (\<exists>s'. send_request ex_ext ex_env ''find_chunk d1'' (ex_zi 5) [65, 66] (Some [0, 0])
            ex_read_script (ex_state\<lparr>dead_nodes := [ex_dead 51 1 2000]\<rparr>) = Some (NEG_EIO, s') \<and>
         socket_calls s' = socket_calls (ex_state\<lparr>dead_nodes := [ex_dead 51 1 2000]\<rparr>))"
proof -
  let ?S = "ex_state\<lparr>dead_nodes := [ex_dead 51 1 2000]\<rparr>"
  have h: "ex_dead 51 1 2000 \<in> set (dead_nodes ?S) \<and>
           node_is_addr (ex_dead 51 1 2000) (start_node (ex_zi 5)) \<and>
           \<not> timercmp_gt (now ?S) (stamp (ex_dead 51 1 2000)) \<and> node_cache ?S = []"
    by code_simp
  then have h1: "\<exists>n \<in> set (dead_nodes ?S). node_is_addr n (start_node (ex_zi 5)) \<and>
                   \<not> timercmp_gt (now ?S) (stamp n)"
    by blast
  from h have h2: "\<forall>n \<in> set (node_cache ?S). \<not> node_is_addr n (start_node (ex_zi 5))"
    by simp
  have "(Some [0, 0::byte] \<noteq> None) = True" by simp
  note t = dead_start_node_fails
    [OF h1 h2, where E = ex_env and X = ex_ext and payload = "''find_chunk d1''"
       and dg = "[65, 66]" and ch = "Some [0, 0]" and script = ex_read_script, unfolded this]
  from h t show ?thesis by blast
qed

subsection \<open>How the loop is left\<close>

lemma loop_bottom_break:
  "loop_bottom X E dg rd err st s1 = (Break r, s2) \<Longrightarrow> loop_rc st = 0 \<Longrightarrow> r = CHUNK_SIZE"
  by (auto simp: loop_bottom_def event_base_loop_def Let_def split: if_splits)

lemma dispatch_post:
  "addr_index (rq (dispatch E zi s)) = addr_count (rq (dispatch E zi s)) \<or>
   max_concurrency zi \<le> addr_concurrency (rq (dispatch E zi s))"
proof (induction E zi s rule: dispatch.induct)
  case (1 E zi s)
  show ?case
  proof (cases "addr_index (rq s) = addr_count (rq s) \<or>
                max_concurrency zi \<le> addr_concurrency (rq s)")
    case True
    then show ?thesis by (simp add: dispatch_stop)
  next
    case False
    then have a: "addr_index (rq s) \<noteq> addr_count (rq s)"
      and b: "\<not> max_concurrency zi \<le> addr_concurrency (rq s)" by simp_all
    from "1.IH" [OF a b refl] a b show ?thesis
      by (subst (1 2 3) dispatch.simps) (simp add: Let_def)
  qed
qed

lemma request_loop_empty:
  "to_pending (dispatch E zi s) \<Longrightarrow> node_list (rq (dispatch E zi s)) = [] \<Longrightarrow>
   request_loop X E zi dg rd err script s = Some (err, dispatch E zi s)"
  by (cases script) (simp_all add: loop_top_def Let_def)

lemma request_loop_eio:
  "\<forall>st \<in> set script. loop_rc st = 0 \<Longrightarrow>
   request_loop X E zi dg rd err script s = Some (NEG_EIO, s') \<Longrightarrow>
   to_pending s' \<and> node_list (rq s') = [] \<and>
   (addr_index (rq s') = addr_count (rq s') \<or> max_concurrency zi \<le> addr_concurrency (rq s'))"
proof (induction script arbitrary: err s)
  case Nil
  obtain o1 s1 where lt: "loop_top E zi err s = (o1, s1)"
    by (cases "loop_top E zi err s")
  from loop_top_cases [OF lt] lt Nil.prems(2) dispatch_post [of E zi s] show ?case by auto
next
  case (Cons st script)
  obtain o1 s1 where lt: "loop_top E zi err s = (o1, s1)"
    by (cases "loop_top E zi err s")
  obtain c s2 where lb: "loop_bottom X E dg rd err st s1 = (c, s2)"
    by (cases "loop_bottom X E dg rd err st s1")
  have rc: "loop_rc st = 0" and rest: "\<forall>st \<in> set script. loop_rc st = 0"
    using Cons.prems(1) by simp_all
  from loop_top_cases [OF lt] show ?case
  proof (elim conjE disjE)
    assume "o1 = Some NEG_ETIMEDOUT" "\<not> to_pending s1"
    with lt Cons.prems(2) show ?thesis by simp
  next
    assume "s1 = dispatch E zi s" "o1 = Some err" "to_pending s1" "node_list (rq s1) = []"
    with lt Cons.prems(2) dispatch_post [of E zi s] show ?thesis by auto
  next
    assume n: "o1 = None"
    show ?thesis
    proof (cases c)
      case (Break r)
      with loop_bottom_break [of X E dg rd err st s1 r s2] lb rc have "r = CHUNK_SIZE" by simp
      with Break n lt lb Cons.prems(2) show ?thesis by simp
    next
      case (Again e)
      with n lt lb Cons.prems(2) Cons.IH [OF rest, of e s2] show ?thesis by simp
    qed
  qed
qed

text \<open>
  Claim C2: a write returns \<^verbatim>\<open>CHUNK_SIZE\<close> as soon as the first \<^verbatim>\<open>request_done\<close> frame
  with the request's digest is received, whatever other peers and the deadline do
  afterwards. The code does not: its write branch sets \<^verbatim>\<open>err = CHUNK_SIZE\<close> and goes
  round the loop (the read branch next to it leaves the loop), and the deadline check
  then overwrites the value. In this write the start node refers to a second peer
  and echoes \<^verbatim>\<open>request_done\<close> with the request's digest.
  \<^item> After that step the code has not returned: it has dispatched to the second peer
    and waits in the event loop (the script cut after two steps gives no value).
  \<^item> When the deadline fires next, it returns \<^verbatim>\<open>-ETIMEDOUT\<close>, with \<open>done = 1\<close>.
  \<^item> When instead the next call of the event loop fails, it returns the
    \<^verbatim>\<open>CHUNK_SIZE\<close> it held.
  \<^item> With the start node alone (no referral) the same echo is followed by the return
    of \<^verbatim>\<open>CHUNK_SIZE\<close>, as the claim says.
\<close>

theorem write_first_done_failing_input:
  "send_request ex_ext ex_env ''store_chunk AB'' (ex_zi 5) [65, 66] None
     (take 2 ex_write_script) ex_state = None \<and>
   map_option fst
     (send_request ex_ext ex_env ''store_chunk AB'' (ex_zi 5) [65, 66] None
        ex_write_script ex_state) = Some NEG_ETIMEDOUT \<and>
   done_cnt (rq (snd (the
     (send_request ex_ext ex_env ''store_chunk AB'' (ex_zi 5) [65, 66] None
        ex_write_script ex_state)))) = 1 \<and>
   map_option fst
     (send_request ex_ext ex_env ''store_chunk AB'' (ex_zi 5) [65, 66] None
        (take 2 ex_write_script @ [ex_step_fail]) ex_state) = Some CHUNK_SIZE \<and>
   map_option fst
     (send_request ex_ext ex_env ''store_chunk AB'' (ex_zi 5) [65, 66] None
        [ex_step [EvConnect 1 0 C_OK], ex_step [EvRead 1 (''request_done d1'' @ CRLF)]]
        ex_state) = Some CHUNK_SIZE"
  by code_simp

text \<open>
  Claim C3, as stated, fails. The request runs with \<open>max_concurrency = 1\<close>, and
  10.0.0.2:7000 is dead-listed (the node object at address 51, so that the node made
  for the start node is at address 52). The start node refers to 10.0.0.2:7000 and
  10.0.0.3:7000 and is done. The dispatch to the dead-listed address fails but takes
  the one concurrency slot, so the third candidate is never tried: \<^verbatim>\<open>send_request\<close>
  returns \<^verbatim>\<open>-EIO\<close> before the deadline has fired, with the cursor at 2 of 3 candidates.
\<close>

theorem io_error_untried_counterexample:
  "map_option fst
     (send_request ex_ext ex_env ''find_chunk d1'' (ex_zi 1) [65, 66] (Some [0, 0])
        (ex_referral_script 52) (ex_state\<lparr>dead_nodes := [ex_dead 51 2 2000]\<rparr>)) = Some NEG_EIO \<and>
   map_option (\<lambda>(r, s'). (r, to_pending s', node_list (rq s'), addr_index (rq s'),
                           addr_count (rq s')))
     (send_request_run ex_ext ex_env ''find_chunk d1'' (ex_zi 1) [65, 66] (Some [0, 0])
        (ex_referral_script 52) (ex_state\<lparr>dead_nodes := [ex_dead 51 2 2000]\<rparr>))
     = Some (NEG_EIO, True, [], 2, 3)"
  by code_simp

text \<open>
  Claim C3, amended. \<^verbatim>\<open>send_request\<close> returns \<^verbatim>\<open>-EIO\<close> at once when no event base can be
  made. Otherwise, when no step of the event loop fails, it returns \<^verbatim>\<open>-EIO\<close> only where
  the outer loop is left by the empty-list check: the deadline has not fired, no node
  is in flight, and the dispatch loop has stopped, because the cursor is at the end of
  the candidate list or because the in-flight counter (which also counts failed
  dispatches) has reached \<open>max_concurrency\<close>. And a read whose turn of the loop finds,
  after dispatch, the deadline pending and no node in flight returns \<^verbatim>\<open>-EIO\<close>.
\<close>

theorem io_error_when:
  "(\<not> base_ok E \<longrightarrow> send_request X E payload zi dg ch script s = Some (NEG_EIO, s)) \<and>
   ((\<forall>st \<in> set script. loop_rc st = 0) \<and>
    send_request_run X E payload zi dg ch script s = Some (NEG_EIO, s') \<longrightarrow>
      to_pending s' \<and> node_list (rq s') = [] \<and>
      (addr_index (rq s') = addr_count (rq s') \<or>
       max_concurrency zi \<le> addr_concurrency (rq s'))) \<and>
   (to_pending (dispatch E zi s) \<and> node_list (rq (dispatch E zi s)) = [] \<longrightarrow>
      request_loop X E zi dg True NEG_EIO script s = Some (NEG_EIO, dispatch E zi s))"
proof (intro conjI impI)
  assume "\<not> base_ok E"
  then show "send_request X E payload zi dg ch script s = Some (NEG_EIO, s)"
    by (simp add: send_request_def)
next
  assume h: "(\<forall>st \<in> set script. loop_rc st = 0) \<and>
             send_request_run X E payload zi dg ch script s = Some (NEG_EIO, s')"
  then have a: "\<forall>st \<in> set script. loop_rc st = 0"
    and b: "request_loop X E zi dg (ch \<noteq> None) NEG_EIO script
              (request_init E payload zi dg ch s) = Some (NEG_EIO, s')"
    unfolding send_request_run_def by blast+
  from request_loop_eio [OF a b]
  show "to_pending s'" "node_list (rq s') = []"
    "addr_index (rq s') = addr_count (rq s') \<or> max_concurrency zi \<le> addr_concurrency (rq s')"
    by simp_all
next
  assume "to_pending (dispatch E zi s) \<and> node_list (rq (dispatch E zi s)) = []"
  then show "request_loop X E zi dg True NEG_EIO script s = Some (NEG_EIO, dispatch E zi s)"
    by (simp add: request_loop_empty)
qed

theorem io_error_when_witness:
  "\<not> base_ok (ex_env\<lparr>base_ok := False\<rparr>) \<and>
   send_request ex_ext (ex_env\<lparr>base_ok := False\<rparr>) ''find_chunk d1'' (ex_zi 5) [65, 66]
     (Some [0, 0]) ex_read_script ex_state = Some (NEG_EIO, ex_state) \<and>
   map loop_rc ex_read_script = [0, 0] \<and>
   send_request_run ex_ext ex_env ''find_chunk d1'' (ex_zi 5) [65, 66] (Some [0, 0])
     ex_read_script (ex_state\<lparr>dead_nodes := [ex_dead 51 1 2000]\<rparr>) =
     Some (NEG_EIO,
           snd (the (send_request_run ex_ext ex_env ''find_chunk d1'' (ex_zi 5) [65, 66]
                       (Some [0, 0]) ex_read_script
                       (ex_state\<lparr>dead_nodes := [ex_dead 51 1 2000]\<rparr>)))) \<and>
   to_pending
     (snd (the (send_request_run ex_ext ex_env ''find_chunk d1'' (ex_zi 5) [65, 66]
                  (Some [0, 0]) ex_read_script
                  (ex_state\<lparr>dead_nodes := [ex_dead 51 1 2000]\<rparr>)))) \<and>
   node_list (rq
     (snd (the (send_request_run ex_ext ex_env ''find_chunk d1'' (ex_zi 5) [65, 66]
                  (Some [0, 0]) ex_read_script
                  (ex_state\<lparr>dead_nodes := [ex_dead 51 1 2000]\<rparr>))))) = [] \<and>
   (to_pending (dispatch ex_env (ex_zi 5) (ex_state\<lparr>to_pending := True\<rparr>)) \<and>
    node_list (rq (dispatch ex_env (ex_zi 5) (ex_state\<lparr>to_pending := True\<rparr>))) = []) \<and>
   request_loop ex_ext ex_env (ex_zi 5) [65, 66] True NEG_EIO ex_read_script
       (ex_state\<lparr>to_pending := True\<rparr>)
     = Some (NEG_EIO, dispatch ex_env (ex_zi 5) (ex_state\<lparr>to_pending := True\<rparr>))"
proof -
  let ?E0 = "ex_env\<lparr>base_ok := False\<rparr>"
  let ?S = "ex_state\<lparr>dead_nodes := [ex_dead 51 1 2000]\<rparr>"
  let ?R = "send_request_run ex_ext ex_env ''find_chunk d1'' (ex_zi 5) [65, 66]
              (Some [0, 0]) ex_read_script ?S"
  let ?s = "ex_state\<lparr>to_pending := True\<rparr>"
  have h1: "\<not> base_ok ?E0"
    by simp
  have h2: "map loop_rc ex_read_script = [0, 0]"
    by code_simp
  have h2': "\<forall>st \<in> set ex_read_script. loop_rc st = 0"
    by (simp add: ex_read_script_def ex_step_def)
  have "map_option fst ?R = Some NEG_EIO"
    by code_simp
  then have h3: "?R = Some (NEG_EIO, snd (the ?R))"
    by (cases ?R) auto
  have h4: "to_pending (dispatch ex_env (ex_zi 5) ?s) \<and>
            node_list (rq (dispatch ex_env (ex_zi 5) ?s)) = []"
    by code_simp
  note t1 = io_error_when
    [where E = ?E0 and X = ex_ext and payload = "''find_chunk d1''" and zi = "ex_zi 5"
       and dg = "[65, 66]" and ch = "Some [0, 0]" and script = ex_read_script and s = ex_state]
  note t2 = io_error_when
    [where E = ex_env and X = ex_ext and payload = "''find_chunk d1''" and zi = "ex_zi 5"
       and dg = "[65, 66]" and ch = "Some [0, 0]" and script = ex_read_script and s = ?S
       and s' = "snd (the ?R)"]
  note t3 = io_error_when
    [where E = ex_env and X = ex_ext and zi = "ex_zi 5" and dg = "[65, 66]"
       and script = ex_read_script and s = ?s]
  from t1 h1 have c1: "send_request ex_ext ?E0 ''find_chunk d1'' (ex_zi 5) [65, 66]
     (Some [0, 0]) ex_read_script ex_state = Some (NEG_EIO, ex_state)" by blast
  from t2 h2' h3 have c2: "to_pending (snd (the ?R)) \<and> node_list (rq (snd (the ?R))) = []"
    by blast
  from t3 h4 have c3: "request_loop ex_ext ex_env (ex_zi 5) [65, 66] True NEG_EIO ex_read_script ?s
     = Some (NEG_EIO, dispatch ex_env (ex_zi 5) ?s)" by blast
  from h1 c1 h2 h3 c2 h4 c3 show ?thesis by blast
qed

subsection \<open>The in-flight counter\<close>

lemma no_grow_refl: "detached s \<Longrightarrow> no_grow s s"
  by (simp add: no_grow_def)

lemma no_grow_trans: "no_grow s t \<Longrightarrow> no_grow t u \<Longrightarrow> no_grow s u"
  by (simp add: no_grow_def)

lemma no_grow_detached: "no_grow s t \<Longrightarrow> detached t"
  by (simp add: no_grow_def)

lemma filter_nid_shrinks:
  "p \<in> nid ` set xs \<Longrightarrow> length (filter (\<lambda>m. nid m \<noteq> p) xs) < length xs"
  by (induction xs) (auto simp: less_Suc_eq_le)

lemma no_grow_free_node:
  "detached s \<Longrightarrow> \<not> req_attached n \<Longrightarrow> no_grow s (free_node n s)"
  by (auto simp: no_grow_def detached_def)

lemma no_grow_sweep_dead:
  "detached s \<Longrightarrow> \<forall>n \<in> set ns. \<not> req_attached n \<Longrightarrow>
   no_grow s (snd (sweep_dead sa t ns s))"
proof (induction ns arbitrary: s)
  case Nil
  then show ?case by (simp add: no_grow_refl)
next
  case (Cons n ns)
  have f: "no_grow s (free_node n s)"
    using Cons.prems by (intro no_grow_free_node) simp_all
  have "no_grow (free_node n s) (snd (sweep_dead sa t ns (free_node n s)))"
    using Cons.prems f by (intro Cons.IH) (simp_all add: no_grow_def)
  with f have a: "no_grow s (snd (sweep_dead sa t ns (free_node n s)))"
    by (rule no_grow_trans)
  have b: "no_grow s (snd (sweep_dead sa t ns s))"
    using Cons.prems by (intro Cons.IH) simp_all
  from a b Cons.prems(1) show ?case by (simp add: no_grow_refl)
qed

lemma no_grow_find_node: "detached s \<Longrightarrow> no_grow s (snd (find_node sa s))"
proof (cases "find (\<lambda>n. node_is_addr n sa) (node_cache s)")
  case None
  assume d: "detached s"
  then have "\<forall>n \<in> set (dead_nodes s). \<not> req_attached n" by (simp add: detached_def)
  from no_grow_sweep_dead [OF d this] None show ?thesis by (simp add: find_node_def)
next
  case (Some n)
  assume "detached s"
  then show ?thesis using Some by (auto simp: find_node_def no_grow_def detached_def)
qed


lemma uu_cache_node_evict_conc:
  assumes "\<not> connect_pending n" "CACHE_MAX < cache_count s + 1"
  shows "addr_concurrency (rq (uu_cache_node n s)) =
          (if req_attached (last (n\<lparr>req_attached := False, bev_enabled := False\<rparr>
                                   # filter (\<lambda>m. nid m \<noteq> nid n) (node_cache s)))
           then addr_concurrency (rq s) - 1 else addr_concurrency (rq s))"
  using assms by (simp add: uu_cache_node_def Let_def)

lemma no_grow_uu_cache_node: "detached s \<Longrightarrow> no_grow s (uu_cache_node n s)"
proof -
  assume d: "detached s"
  have len: "length (node_list (rq (uu_cache_node n s))) \<le> length (node_list (rq s))"
    by (rule order_trans [OF uu_cache_node_shrinks length_filter_le])
  show ?thesis
  proof (cases "connect_pending n")
    case True
    then show ?thesis using d len
      by (auto simp: no_grow_def detached_def uu_cache_node_pending)
  next
    case np: False
    show ?thesis
    proof (cases "CACHE_MAX < cache_count s + 1")
      case False
      with np show ?thesis using d len
        by (auto simp: no_grow_def detached_def uu_cache_node_keep)
    next
      case True
      let ?l = "last (n\<lparr>req_attached := False, bev_enabled := False\<rparr>
                       # filter (\<lambda>m. nid m \<noteq> nid n) (node_cache s))"
      have "?l \<in> set (n\<lparr>req_attached := False, bev_enabled := False\<rparr>
                       # filter (\<lambda>m. nid m \<noteq> nid n) (node_cache s))"
        by (rule last_in_set) simp
      then have nl: "\<not> req_attached ?l" using d by (auto simp: detached_def)
      have c: "addr_concurrency (rq (uu_cache_node n s)) = addr_concurrency (rq s)"
        unfolding uu_cache_node_evict_conc [OF np True] by (simp only: nl if_False)
      have "detached (uu_cache_node n s)"
        using d np True by (auto simp: detached_def uu_cache_node_evict)
      with c len show ?thesis by (simp add: no_grow_def)
    qed
  qed
qed

lemma uu_cache_node_strict:
  "nid n \<in> nid ` set (node_list (rq s)) \<Longrightarrow>
   length (node_list (rq (uu_cache_node n s))) < length (node_list (rq s))"
  using uu_cache_node_shrinks [of n s] filter_nid_shrinks [of "nid n" "node_list (rq s)"]
  by simp

lemma no_grow_upd_node:
  "detached s \<Longrightarrow> (\<And>m. req_attached (f m) = req_attached m) \<Longrightarrow>
   no_grow s (upd_node p f s)"
  by (auto simp: no_grow_def detached_def upd_node_def)

lemma no_grow_try_connect: "detached s \<Longrightarrow> no_grow s (try_connect k r n s)"
proof (induction k)
  case 0
  have u: "no_grow s (upd_node (nid n) (\<lambda>m. m\<lparr>connect_pending := True\<rparr>) s)"
    using 0 by (intro no_grow_upd_node) simp_all
  have "no_grow (upd_node (nid n) (\<lambda>m. m\<lparr>connect_pending := True\<rparr>) s)
          (cache_node (n\<lparr>connect_pending := True\<rparr>)
             (upd_node (nid n) (\<lambda>m. m\<lparr>connect_pending := True\<rparr>) s))"
    unfolding cache_node_def using u by (intro no_grow_uu_cache_node) (rule no_grow_detached)
  with u have c: "no_grow s (cache_node (n\<lparr>connect_pending := True\<rparr>)
             (upd_node (nid n) (\<lambda>m. m\<lparr>connect_pending := True\<rparr>) s))"
    by (rule no_grow_trans)
  have e: "no_grow s (upd_node (nid n) (\<lambda>m. m\<lparr>bev_enabled := True\<rparr>) s)"
    using 0 by (intro no_grow_upd_node) simp_all
  from u c e show ?case by simp
next
  case (Suc k)
  then show ?case by simp
qed

lemma write_request_grow:
  "detached s \<Longrightarrow>
   detached (snd (write_request n s)) \<and>
   addr_concurrency (rq (snd (write_request n s))) = addr_concurrency (rq s) \<and>
   length (node_list (rq (snd (write_request n s)))) = length (node_list (rq s)) + 1"
  by (simp add: write_request_def Let_def detached_def)

lemma send_request_to_grow:
  assumes d: "detached s"
  shows "detached (snd (send_request_to E sa s)) \<and>
         addr_concurrency (rq (snd (send_request_to E sa s))) = addr_concurrency (rq s) \<and>
         length (node_list (rq (snd (send_request_to E sa s)))) \<le> length (node_list (rq s)) + 1"
proof -
  obtain f s1 where fn: "find_node sa s = (f, s1)" by (cases "find_node sa s")
  have g1: "no_grow s s1" using no_grow_find_node [OF d, of sa] fn by simp
  then have d1: "detached s1" by (rule no_grow_detached)
  have step: "detached t \<Longrightarrow> no_grow (snd (write_request m t)) u \<Longrightarrow>
      detached u \<and> addr_concurrency (rq u) = addr_concurrency (rq t) \<and>
      length (node_list (rq u)) \<le> length (node_list (rq t)) + 1" for t m u
    using write_request_grow [of t m] by (simp add: no_grow_def)
  have fld: "detached (t\<lparr>malloc_calls := a, socket_calls := b, open_fds := c, bev_calls := e\<rparr>)
               = detached t" for t a b c e
    by (simp add: detached_def)
  have "detached (snd (send_request_to E sa s)) \<and>
         addr_concurrency (rq (snd (send_request_to E sa s))) = addr_concurrency (rq s1) \<and>
         length (node_list (rq (snd (send_request_to E sa s)))) \<le> length (node_list (rq s1)) + 1"
  proof (cases f)
    case DeadNode
    with fn d1 show ?thesis by (simp add: send_request_to_def)
  next
    case (Found n)
    have "no_grow (snd (write_request n s1))
            (upd_node (nid (fst (write_request n s1))) (\<lambda>m. m\<lparr>bev_enabled := True\<rparr>)
               (snd (write_request n s1)))"
      using write_request_grow [OF d1, of n] by (intro no_grow_upd_node) simp_all
    from step [OF d1 this] Found fn show ?thesis
      by (simp add: send_request_to_def case_prod_beta)
  next
    case NotFound
    show ?thesis
    proof (cases "malloc_ok E (malloc_calls s1) \<and> \<not> socket_res E (socket_calls s1) < 0 \<and>
                  bev_ok E (bev_calls s1)")
      case False
      with NotFound fn d1 show ?thesis
        by (auto simp: send_request_to_def Let_def detached_def)
    next
      case True
      let ?t = "s1\<lparr>malloc_calls := Suc (malloc_calls s1), socket_calls := Suc (socket_calls s1),
                  open_fds := insert (socket_res E (socket_calls s1)) (open_fds s1),
                  bev_calls := Suc (bev_calls s1)\<rparr>"
      let ?n = "\<lparr>nid = new_nid ?t, addr = sa, sk = socket_res E (socket_calls s1),
                                   req_attached = False, connect_pending = False,
                                   bev_enabled = False, inbuf = [], outbuf = [],
                                   stamp = \<lparr>tv_sec = 0, tv_usec = 0\<rparr>\<rparr>"
      have dt: "detached ?t" using d1 by (simp add: detached_def)
      let ?w = "snd (write_request ?n ?t)"
      have dw: "detached ?w" using write_request_grow [OF dt, of ?n] by simp
      have u: "no_grow ?w (upd_node (nid ?n) (\<lambda>m. m\<lparr>bev_enabled := False\<rparr>) ?w)"
        using dw by (intro no_grow_upd_node) simp_all
      have "no_grow (upd_node (nid ?n) (\<lambda>m. m\<lparr>bev_enabled := False\<rparr>) ?w)
              (try_connect k r m (upd_node (nid ?n) (\<lambda>m. m\<lparr>bev_enabled := False\<rparr>) ?w))" for k r m
        using u by (intro no_grow_try_connect) (rule no_grow_detached)
      with u have "no_grow ?w (try_connect k r m (upd_node (nid ?n) (\<lambda>m. m\<lparr>bev_enabled := False\<rparr>) ?w))"
        for k r m by (rule no_grow_trans)
      from step [OF dt this] True NotFound fn show ?thesis
        by (simp add: send_request_to_def Let_def case_prod_beta)
    qed
  qed
  with g1 show ?thesis by (simp add: no_grow_def)
qed


lemma unat_inc_below: "(c::32 word) < m \<Longrightarrow> unat (c + 1) = unat c + 1"
proof -
  assume "c < m"
  then have "unat c < unat m" by (simp add: word_less_nat_alt)
  moreover have "unat m < 2 ^ 32" using unsigned_less [of m] by simp
  ultimately have "unat c + 1 < 2 ^ 32" by simp
  then show ?thesis by (simp add: unat_word_ariths)
qed

lemma flight_inv_no_grow: "flight_inv zi s \<Longrightarrow> no_grow s s' \<Longrightarrow> flight_inv zi s'"
  by (simp add: flight_inv_def in_flight_ok_def no_grow_def)

lemma flight_inv_dec:
  assumes inv: "flight_inv zi s"
      and d: "detached s'"
      and c: "addr_concurrency (rq s') = addr_concurrency (rq s) - 1"
      and l: "length (node_list (rq s')) < length (node_list (rq s))"
  shows "flight_inv zi s'"
proof -
  from inv l have pos: "0 < unat (addr_concurrency (rq s))"
    by (simp add: flight_inv_def in_flight_ok_def)
  then have nz: "addr_concurrency (rq s) \<noteq> 0" by (simp add: unat_gt_0)
  then have u: "unat (addr_concurrency (rq s) - 1) = unat (addr_concurrency (rq s)) - 1"
    by (rule unat_minus_one)
  from inv have "unat (addr_concurrency (rq s)) \<le> unat (max_concurrency zi)"
    by (simp add: flight_inv_def in_flight_ok_def word_le_nat_alt)
  with u have "addr_concurrency (rq s) - 1 \<le> max_concurrency zi"
    by (simp add: word_le_nat_alt)
  then have m: "addr_concurrency (rq s') \<le> max_concurrency zi" using c by simp
  from inv l have "length (node_list (rq s')) < unat (addr_concurrency (rq s))"
    by (simp add: flight_inv_def in_flight_ok_def)
  then have "length (node_list (rq s')) \<le> unat (addr_concurrency (rq s')) "
    using u c by simp
  with d m show ?thesis
    by (simp add: flight_inv_def in_flight_ok_def)
qed

lemma flight_inv_free_node:
  assumes inv: "flight_inv zi s" and m: "nid n \<in> nid ` set (node_list (rq s))"
  shows "flight_inv zi (free_node n s)"
proof (cases "req_attached n")
  case False
  from inv have "detached s" by (simp add: flight_inv_def)
  from flight_inv_no_grow [OF inv no_grow_free_node [OF this False]] show ?thesis .
next
  case True
  show ?thesis
  proof (rule flight_inv_dec [OF inv])
    show "detached (free_node n s)" using inv by (auto simp: flight_inv_def detached_def)
    show "addr_concurrency (rq (free_node n s)) = addr_concurrency (rq s) - 1"
      using True by simp
    show "length (node_list (rq (free_node n s))) < length (node_list (rq s))"
      using filter_nid_shrinks [OF m] by simp
  qed
qed

lemma flight_inv_dispatch: "flight_inv zi s \<Longrightarrow> flight_inv zi (dispatch E zi s)"
proof (induction E zi s rule: dispatch.induct)
  case (1 E zi s)
  show ?case
  proof (cases "addr_index (rq s) = addr_count (rq s) \<or>
                max_concurrency zi \<le> addr_concurrency (rq s)")
    case True
    then show ?thesis using "1.prems" by (simp add: dispatch_stop)
  next
    case False
    then have a: "addr_index (rq s) \<noteq> addr_count (rq s)"
      and b: "\<not> max_concurrency zi \<le> addr_concurrency (rq s)" by simp_all
    let ?s1 = "if unat (addr_index (rq s)) < length (addr_list (rq s))
               then snd (send_request_to E (addr_list (rq s) ! unat (addr_index (rq s))) s)
               else s"
    let ?s2 = "?s1\<lparr>rq := (rq ?s1)\<lparr>addr_index := addr_index (rq ?s1) + 1,
                                     addr_concurrency := addr_concurrency (rq ?s1) + 1\<rparr>\<rparr>"
    from "1.prems" have d: "detached s" by (simp add: flight_inv_def)
    have g: "detached ?s1 \<and> addr_concurrency (rq ?s1) = addr_concurrency (rq s) \<and>
             length (node_list (rq ?s1)) \<le> length (node_list (rq s)) + 1"
      using send_request_to_grow [OF d] d by simp
    from b have lt: "addr_concurrency (rq s) < max_concurrency zi" by simp
    then have u: "unat (addr_concurrency (rq s) + 1) = unat (addr_concurrency (rq s)) + 1"
      by (rule unat_inc_below)
    from lt have le: "addr_concurrency (rq s) + 1 \<le> max_concurrency zi"
      by (rule inc_le)
    have inv2: "flight_inv zi ?s2"
      using "1.prems" g u le
      by (simp add: flight_inv_def in_flight_ok_def detached_def)
    have "dispatch E zi s = dispatch E zi ?s2"
      using a b by (subst dispatch.simps) (simp add: Let_def)
    with "1.IH" [OF a b refl inv2] show ?thesis by simp
  qed
qed

lemma store_node_frame:
  "node_list (rq (store_node X E p s)) = node_list (rq s) \<and>
   addr_concurrency (rq (store_node X E p s)) = addr_concurrency (rq s) \<and>
   node_cache (store_node X E p s) = node_cache s \<and>
   dead_nodes (store_node X E p s) = dead_nodes s"
  by (simp add: store_node_def uu_store_node_def Let_def split: option.splits prod.splits)

lemma flight_inv_proc_msg:
  assumes inv: "flight_inv zi s" and m: "nid n \<in> nid ` set (node_list (rq s))"
  shows "flight_inv zi (snd (proc_msg X E msg n s)) \<and>
         (\<not> fst (proc_msg X E msg n s) \<longrightarrow>
            node_list (rq (snd (proc_msg X E msg n s))) = node_list (rq s))"
proof -
  from inv have d: "detached s" by (simp add: flight_inv_def)
  let ?a = "s\<lparr>rq := (rq s)\<lparr>done_cnt := done_cnt (rq s) + 1,
                                  addr_concurrency := addr_concurrency (rq s) - 1\<rparr>\<rparr>"
  have da: "detached ?a" using d by (simp add: detached_def)
  have g: "no_grow ?a (uu_cache_node n ?a)" using da by (rule no_grow_uu_cache_node)
  have st: "length (node_list (rq (uu_cache_node n ?a))) < length (node_list (rq ?a))"
    using m by (intro uu_cache_node_strict) simp
  have dn: "flight_inv zi (cache_node n ?a)"
    unfolding cache_node_def
    using g st by (intro flight_inv_dec [OF inv]) (simp_all add: no_grow_def)
  have chunk: "flight_inv zi (s\<lparr>out_buf := b, rq := (rq s)\<lparr>chunk := False\<rparr>\<rparr>)" for b
    using inv by (simp add: flight_inv_def in_flight_ok_def detached_def)
  have sn: "flight_inv zi (store_node X E p s)" for p
    using inv store_node_frame [of X E p s]
    by (simp add: flight_inv_def in_flight_ok_def detached_def)
  show ?thesis
    using inv dn chunk sn store_node_frame [of X E _ s]
    by (simp add: proc_msg_def)
qed

lemma flight_inv_readcb_loop:
  "flight_inv zi s \<Longrightarrow> d \<or> nid n \<in> nid ` set (node_list (rq s)) \<Longrightarrow>
   flight_inv zi (snd (readcb_loop X E n d buf s))"
proof (induction X E n d buf s rule: readcb_loop.induct)
  case (1 X E n drain_all buf s)
  show ?case
  proof (cases "find_crlf buf")
    case None
    with "1.prems" show ?thesis by (subst readcb_loop.simps) simp
  next
    case (Some lr)
    obtain line rest where lr: "lr = (line, rest)" by (cases lr)
    show ?thesis
    proof (cases drain_all)
      case True
      with "1.IH"(1) [OF Some lr [symmetric] True "1.prems"(1)] Some lr show ?thesis
        by (subst readcb_loop.simps) simp
    next
      case False
      with "1.prems" have m: "nid n \<in> nid ` set (node_list (rq s))" by simp
      note pm = flight_inv_proc_msg [OF "1.prems"(1) m, of X E line]
      have "fst (proc_msg X E line n s) \<or>
            nid n \<in> nid ` set (node_list (rq (snd (proc_msg X E line n s))))"
        using pm m by auto
      with "1.IH"(2) [OF Some lr [symmetric] False] pm Some lr False show ?thesis
        by (subst readcb_loop.simps) simp
    qed
  qed
qed

lemma upd_node_nids:
  "(\<And>m. nid (f m) = nid m) \<Longrightarrow>
   nid ` set (node_list (rq (upd_node p f s))) = nid ` set (node_list (rq s))"
proof -
  assume f: "\<And>m. nid (f m) = nid m"
  have "map nid (map (\<lambda>n. if nid n = p then f n else n) xs) = map nid xs" for xs
    by (induction xs) (simp_all add: f)
  then have "set (map nid (node_list (rq (upd_node p f s)))) = set (map nid (node_list (rq s)))"
    by (simp add: upd_node_def)
  then show ?thesis by simp
qed

lemma flight_inv_readcb:
  assumes inv: "flight_inv zi s" and m: "nid n \<in> nid ` set (node_list (rq s))"
  shows "flight_inv zi (readcb X E n data s)"
proof -
  let ?s1 = "upd_node (nid n) (\<lambda>m. m\<lparr>inbuf := inbuf m @ data\<rparr>) s"
  from inv have d: "detached s" by (simp add: flight_inv_def)
  have i1: "flight_inv zi ?s1"
    using d by (intro flight_inv_no_grow [OF inv] no_grow_upd_node) simp_all
  have m1: "nid n \<in> nid ` set (node_list (rq ?s1))"
    using m by (subst upd_node_nids) simp_all
  let ?n1 = "n\<lparr>inbuf := inbuf n @ data\<rparr>"
  have "flight_inv zi (snd (readcb_loop X E ?n1 False (inbuf ?n1) ?s1))"
    using i1 m1 by (intro flight_inv_readcb_loop) simp_all
  then have i2: "flight_inv zi (snd (readcb_loop X E ?n1 False (inbuf n @ data) ?s1))"
    by simp
  let ?s2 = "snd (readcb_loop X E ?n1 False (inbuf n @ data) ?s1)"
  from i2 have d2: "detached ?s2" by (simp add: flight_inv_def)
  have "no_grow ?s2 (upd_node (nid n) (\<lambda>m. m\<lparr>inbuf := r\<rparr>) ?s2)" for r
    using d2 by (rule no_grow_upd_node) simp
  then have "flight_inv zi (upd_node (nid n) (\<lambda>m. m\<lparr>inbuf := r\<rparr>) ?s2)" for r
    by (rule flight_inv_no_grow [OF i2])
  then show ?thesis by (simp add: readcb_def Let_def case_prod_beta)
qed

lemma get_node_listed: "get_node p s = Some n \<Longrightarrow> nid n \<in> nid ` set (node_list (rq s))"
  by (auto simp: get_node_def find_Some_iff)

lemma flight_inv_deliver: "flight_inv zi s \<Longrightarrow> flight_inv zi (deliver X E ev s)"
proof (cases ev)
  case EvTimeout
  assume "flight_inv zi s"
  then show ?thesis using EvTimeout
    by (simp add: deliver_def flight_inv_def in_flight_ok_def detached_def)
next
  case (EvConnect p k r)
  assume inv: "flight_inv zi s"
  then have d: "detached s" by (simp add: flight_inv_def)
  let ?u = "upd_node p (\<lambda>m. m\<lparr>connect_pending := False\<rparr>) s"
  have u: "no_grow s ?u" using d by (intro no_grow_upd_node) simp_all
  then have "no_grow ?u (try_connect k r m ?u)" for m
    by (intro no_grow_try_connect) (rule no_grow_detached)
  with u have "no_grow s (try_connect k r m ?u)" for m by (rule no_grow_trans)
  from flight_inv_no_grow [OF inv this] inv show ?thesis using EvConnect
    by (simp add: deliver_def split: option.splits)
next
  case (EvRead p data)
  assume inv: "flight_inv zi s"
  then show ?thesis using EvRead
    by (auto simp: deliver_def split: option.splits
             intro: flight_inv_readcb dest: get_node_listed)
next
  case (EvError p)
  assume inv: "flight_inv zi s"
  then show ?thesis using EvError
    by (auto simp: deliver_def errorcb_def split: option.splits
             intro: flight_inv_free_node dest: get_node_listed)
qed

lemma flight_inv_event_base_loop:
  "flight_inv zi s \<Longrightarrow> flight_inv zi (snd (event_base_loop X E st s))"
proof -
  have f: "flight_inv zi t \<Longrightarrow> flight_inv zi (fold (deliver X E) evs t)" for evs t
    by (induction evs arbitrary: t) (simp_all add: flight_inv_deliver)
  assume "flight_inv zi s"
  then have "flight_inv zi (s\<lparr>now := wake st\<rparr>)"
    by (simp add: flight_inv_def in_flight_ok_def detached_def)
  then show ?thesis unfolding event_base_loop_def snd_conv by (rule f)
qed

lemma flight_inv_loop_bottom:
  "flight_inv zi s \<Longrightarrow> flight_inv zi (snd (loop_bottom X E dg rd err st s))"
  using flight_inv_event_base_loop [of zi s X E st]
  by (simp add: loop_bottom_def Let_def flight_inv_def in_flight_ok_def detached_def)

lemma flight_inv_suspension_points:
  "flight_inv zi s \<Longrightarrow>
   \<forall>t \<in> set (suspension_points X E zi dg rd err script s). flight_inv zi t"
proof (induction script arbitrary: err s)
  case Nil
  obtain o1 s1 where lt: "loop_top E zi err s = (o1, s1)" by (cases "loop_top E zi err s")
  from loop_top_cases [OF lt] flight_inv_dispatch [OF Nil, of E] have "flight_inv zi s1" by simp
  then show ?case using lt by (cases o1) auto
next
  case (Cons st script)
  obtain o1 s1 where lt: "loop_top E zi err s = (o1, s1)" by (cases "loop_top E zi err s")
  from loop_top_cases [OF lt] flight_inv_dispatch [OF Cons.prems, of E]
  have i1: "flight_inv zi s1" by simp
  obtain c s2 where lb: "loop_bottom X E dg rd err st s1 = (c, s2)"
    by (cases "loop_bottom X E dg rd err st s1")
  have i2: "flight_inv zi s2"
    using flight_inv_loop_bottom [OF i1, of X E dg rd err st] lb by simp
  show ?case
    using lt lb i1 Cons.IH [OF i2]
    by (cases o1; cases c) auto
qed

lemma flight_inv_request_init:
  "detached s \<Longrightarrow> flight_inv zi (request_init E payload zi dg ch s)"
  by (simp add: flight_inv_def in_flight_ok_def detached_def request_init_fields)


text \<open>
  Claim C4, as stated, fails: the counter also counts dispatches that attached no
  node. Here 10.0.0.2:7000 is dead-listed and the start node refers to it. At the
  third suspension point the counter is 2 and one node is on the request's list.
\<close>

theorem in_flight_counter_counterexample:
  "map (\<lambda>t. (addr_concurrency (rq t), length (node_list (rq t))))
     (suspension_points ex_ext ex_env (ex_zi 5) [65, 66] True NEG_EIO
        [ex_step [EvConnect 52 0 C_OK],
         ex_step [EvRead 52 (''store_node 10.0.0.2:7000'' @ CRLF)]]
        (request_init ex_env ''find_chunk d1'' (ex_zi 5) [65, 66] (Some [0, 0])
           (ex_state\<lparr>dead_nodes := [ex_dead 51 2 2000]\<rparr>)))
   = [(1, 1), (1, 1), (2, 1)]"
  by code_simp

text \<open>
  Claim C4, amended. For every request, started in a state whose idle and dead nodes
  belong to no request: at every suspension point the number of nodes on the
  request's list is at most the in-flight counter \<^verbatim>\<open>addr_concurrency\<close>, and the counter
  is at most \<open>max_concurrency\<close>.
\<close>

theorem in_flight_counter_bounds:
  assumes "detached s"
  shows "\<forall>t \<in> set (suspension_points X E zi dg (ch \<noteq> None) NEG_EIO script
                      (request_init E payload zi dg ch s)).
           length (node_list (rq t)) \<le> unat (addr_concurrency (rq t)) \<and>
           addr_concurrency (rq t) \<le> max_concurrency zi"
proof -
  have "flight_inv zi (request_init E payload zi dg ch s)"
    using assms by (rule flight_inv_request_init)
  from flight_inv_suspension_points [OF this] show ?thesis
    by (simp add: flight_inv_def in_flight_ok_def)
qed

theorem in_flight_counter_bounds_witness:
  "detached (ex_state\<lparr>dead_nodes := [ex_dead 51 2 2000]\<rparr>) \<and>
   suspension_points ex_ext ex_env (ex_zi 5) [65, 66] True NEG_EIO
     [ex_step [EvConnect 52 0 C_OK], ex_step [EvRead 52 (''store_node 10.0.0.2:7000'' @ CRLF)]]
     (request_init ex_env ''find_chunk d1'' (ex_zi 5) [65, 66] (Some [0, 0])
        (ex_state\<lparr>dead_nodes := [ex_dead 51 2 2000]\<rparr>)) \<noteq> [] \<and>
   length (node_list (rq (last
     (suspension_points ex_ext ex_env (ex_zi 5) [65, 66] True NEG_EIO
        [ex_step [EvConnect 52 0 C_OK], ex_step [EvRead 52 (''store_node 10.0.0.2:7000'' @ CRLF)]]
        (request_init ex_env ''find_chunk d1'' (ex_zi 5) [65, 66] (Some [0, 0])
           (ex_state\<lparr>dead_nodes := [ex_dead 51 2 2000]\<rparr>))))))
     \<le> unat (addr_concurrency (rq (last
     (suspension_points ex_ext ex_env (ex_zi 5) [65, 66] True NEG_EIO
        [ex_step [EvConnect 52 0 C_OK], ex_step [EvRead 52 (''store_node 10.0.0.2:7000'' @ CRLF)]]
        (request_init ex_env ''find_chunk d1'' (ex_zi 5) [65, 66] (Some [0, 0])
           (ex_state\<lparr>dead_nodes := [ex_dead 51 2 2000]\<rparr>)))))) \<and>
   addr_concurrency (rq (last
     (suspension_points ex_ext ex_env (ex_zi 5) [65, 66] True NEG_EIO
        [ex_step [EvConnect 52 0 C_OK], ex_step [EvRead 52 (''store_node 10.0.0.2:7000'' @ CRLF)]]
        (request_init ex_env ''find_chunk d1'' (ex_zi 5) [65, 66] (Some [0, 0])
           (ex_state\<lparr>dead_nodes := [ex_dead 51 2 2000]\<rparr>)))))
     \<le> max_concurrency (ex_zi 5)"
proof -
  let ?S = "ex_state\<lparr>dead_nodes := [ex_dead 51 2 2000]\<rparr>"
  let ?SP = "suspension_points ex_ext ex_env (ex_zi 5) [65, 66] True NEG_EIO
     [ex_step [EvConnect 52 0 C_OK], ex_step [EvRead 52 (''store_node 10.0.0.2:7000'' @ CRLF)]]
     (request_init ex_env ''find_chunk d1'' (ex_zi 5) [65, 66] (Some [0, 0]) ?S)"
  have h: "detached ?S"
    by (simp add: detached_def ex_state_def ex_dead_def)
  have ne: "?SP \<noteq> []"
    by code_simp
  then have m: "last ?SP \<in> set ?SP" by (rule last_in_set)
  have "(Some [0, 0::byte] \<noteq> None) = True" by simp
  note t = in_flight_counter_bounds
    [OF h, where X = ex_ext and E = ex_env and zi = "ex_zi 5" and dg = "[65, 66]"
       and ch = "Some [0, 0]" and payload = "''find_chunk d1''"
       and script = "[ex_step [EvConnect 52 0 C_OK],
                      ex_step [EvRead 52 (''store_node 10.0.0.2:7000'' @ CRLF)]]",
     unfolded this]
  from t m have "length (node_list (rq (last ?SP))) \<le> unat (addr_concurrency (rq (last ?SP))) \<and>
                 addr_concurrency (rq (last ?SP)) \<le> max_concurrency (ex_zi 5)"
    by blast
  with h ne show ?thesis by blast
qed

end
